theory Spec2Isabelle
  imports Complex_Main
begin

section \<open>Data model\<close>

text \<open>
  A Python number is an int, of any size, or a float. Floats, and the entries of numpy's
  float arrays, are idealised to exact rationals: their rounding, overflow and underflow
  are not part of the model. The 64-bit integer arrays of numpy are, with the wrap-around
  of their sums (\<open>np_sum\<close>). Python exceptions are values of \<open>error\<close>.
\<close>

datatype error = ValueError | KeyError | TypeError | IndexError | ZeroDivisionError

datatype number = PyInt int | PyFloat rat

fun num_value :: "number \<Rightarrow> rat" where
  "num_value (PyInt i) = of_int i"
| "num_value (PyFloat x) = x"

text \<open>
  A numpy array of probabilities. Dividing an array by a zero sum does not raise in numpy:
  it gives an array of inf/nan entries, which is \<open>NonFinite\<close> here.
\<close>

datatype ndarray = Array "rat list" | NonFinite

text \<open>
  The igraph graph, as far as the code reads and writes it. Vertices are their igraph
  indices \<open>0 ..< g_vcount\<close>; every edge carries the attribute 'weight'; every vertex carries
  the attributes 'name' and 'label' (supplied by the caller). The vertex attributes
  'probabilities' and 'first_travel_key' are created by the program: \<open>None\<close> is a graph
  without the attribute (reading it raises KeyError), \<open>Some m\<close> with \<open>m v = None\<close> is a vertex
  whose value is Python's None.
\<close>

record edge =
  e_source :: nat
  e_target :: nat
  e_weight :: number

record graph =
  g_vcount :: nat
  g_directed :: bool
  g_es :: "edge list"
  v_name :: "nat \<Rightarrow> string"
  v_label :: "nat \<Rightarrow> string"
  v_probabilities :: "(nat \<rightharpoonup> (string \<rightharpoonup> ndarray)) option"
  v_first_travel_key :: "(nat \<rightharpoonup> ndarray) option"

text \<open>
  Keys of the sampling-strategy dict: \<open>Node2VecModel\<close> looks a vertex up by its name,
  \<open>BiasedRandomWalker\<close> by the igraph Vertex object itself.
\<close>

datatype key = NameKey string | VertexKey nat

record strategy =
  st_p :: "rat option"
  st_q :: "rat option"
  st_num_walks :: "int option"
  st_walk_length :: "int option"

record RandomWalkParameters =
  number_paths :: int
  max_path_length :: int
  restart_probability :: rat
  rw_p :: rat
  rw_q :: rat
  sampling_strategy :: "key \<rightharpoonup> strategy"
  is_directed :: bool
  is_weighted :: bool

section \<open>The igraph and numpy operations the code calls\<close>

definition vs :: "graph \<Rightarrow> nat list" where
  "vs g = [0 ..< g_vcount g]"

text \<open>\<open>Vertex.neighbors()\<close>, default mode "all": the other end of every incident edge, in
  increasing order of index, once per edge.\<close>

definition neighbors :: "graph \<Rightarrow> nat \<Rightarrow> nat list" where
  "neighbors g v =
     sort (concat (map (\<lambda>e. (if e_source e = v then [e_target e] else []) @
                             (if e_target e = v then [e_source e] else [])) (g_es g)))"

text \<open>\<open>es.select(_between=([a], [b]))\<close>: the edges with one end in each set, in edge order.\<close>

definition select_between :: "graph \<Rightarrow> nat \<Rightarrow> nat \<Rightarrow> edge list" where
  "select_between g a b =
     filter (\<lambda>e. (e_source e = a \<and> e_target e = b) \<or> (e_source e = b \<and> e_target e = a)) (g_es g)"

text \<open>\<open>es.select(_source=s, _target=t)\<close>: in a directed graph the edges from s to t; in an
  undirected graph the two filters match either end.\<close>

definition select_source_target :: "graph \<Rightarrow> nat \<Rightarrow> nat \<Rightarrow> edge list" where
  "select_source_target g s t =
     filter (\<lambda>e. (e_source e = s \<and> e_target e = t) \<or>
                 (\<not> g_directed g \<and> e_source e = t \<and> e_target e = s)) (g_es g)"

text \<open>\<open>Graph.neighborhood_size(v)\<close> with the defaults order=1, mindist=0: the number of
  vertices within one step of v, v itself included.\<close>

definition neighborhood_size :: "graph \<Rightarrow> nat \<Rightarrow> nat" where
  "neighborhood_size g v = length (remdups (v # neighbors g v))"

text \<open>Python's \<open>/\<close> of a number by a float: true division, whose result is a float also
  when the dividend is an int.\<close>

definition py_div :: "number \<Rightarrow> rat \<Rightarrow> error + number" where
  "py_div a b = (if b = 0 then Inl ZeroDivisionError else Inr (PyFloat (num_value a / b)))"

text \<open>
  \<open>np.array(ws)\<close> picks the element type from the values (64-bit platforms): a list of
  Python ints that all fit in 64 bits signed gives an int64 array, a list of non-negative
  ints that all fit in 64 bits unsigned a uint64 array, any other list a float array (or
  an array of Python objects, for ints beyond 64 bits), which is idealised to exact
  arithmetic.
\<close>

datatype dtype = Int64 | UInt64 | Float64

definition np_dtype :: "number list \<Rightarrow> dtype" where
  "np_dtype ws =
     (if list_all (\<lambda>w. case w of PyInt i \<Rightarrow> - (2 ^ 63) \<le> i \<and> i < 2 ^ 63 | PyFloat x \<Rightarrow> False) ws
      then Int64
      else if list_all (\<lambda>w. case w of PyInt i \<Rightarrow> 0 \<le> i \<and> i < 2 ^ 64 | PyFloat x \<Rightarrow> False) ws
      then UInt64
      else Float64)"

text \<open>The int entries of a list of numbers.\<close>

definition ints :: "number list \<Rightarrow> int list" where
  "ints ws = concat (map (\<lambda>w. case w of PyInt i \<Rightarrow> [i] | PyFloat x \<Rightarrow> []) ws)"

text \<open>Two's-complement wrap-around of a sum computed in 64 bits, signed and unsigned.\<close>

definition wrap_int64 :: "int \<Rightarrow> int" where
  "wrap_int64 i = (i + 2 ^ 63) mod 2 ^ 64 - 2 ^ 63"

definition wrap_uint64 :: "int \<Rightarrow> int" where
  "wrap_uint64 i = i mod 2 ^ 64"

text \<open>\<open>np.array(ws).sum()\<close>: the sum of an integer array is computed in the array's own
  type, where it wraps around silently.\<close>

definition np_sum :: "number list \<Rightarrow> rat" where
  "np_sum ws =
     (case np_dtype ws of
        Int64 \<Rightarrow> of_int (wrap_int64 (sum_list (ints ws)))
      | UInt64 \<Rightarrow> of_int (wrap_uint64 (sum_list (ints ws)))
      | Float64 \<Rightarrow> sum_list (map num_value ws))"

text \<open>\<open>a = np.array(ws); a / a.sum()\<close>: the quotient is a float array whatever the type of
  \<open>a\<close>; dividing by a zero sum does not raise. The empty list gives the empty array.\<close>

definition np_normalize :: "number list \<Rightarrow> ndarray" where
  "np_normalize ws =
     (if ws = [] then Array []
      else if np_sum ws = 0 then NonFinite
      else Array (map (\<lambda>w. num_value w / np_sum ws) ws))"

text \<open>A \<open>for\<close> loop over a list whose body may raise: the first error ends the loop.\<close>

fun for_loop :: "('a \<Rightarrow> 's \<Rightarrow> error + 's) \<Rightarrow> 'a list \<Rightarrow> 's \<Rightarrow> error + 's" where
  "for_loop body [] s = Inr s"
| "for_loop body (x # xs) s =
     (case body x s of Inl e \<Rightarrow> Inl e | Inr s' \<Rightarrow> for_loop body xs s')"

section \<open>Node2VecModel\<close>

definition get_p :: "RandomWalkParameters \<Rightarrow> string \<Rightarrow> rat" where
  "get_p ps current_node =
     (case sampling_strategy ps (NameKey current_node) of
        Some st \<Rightarrow> (case st_p st of Some x \<Rightarrow> x | None \<Rightarrow> rw_p ps)
      | None \<Rightarrow> rw_p ps)"

definition get_q :: "RandomWalkParameters \<Rightarrow> string \<Rightarrow> rat" where
  "get_q ps current_node =
     (case sampling_strategy ps (NameKey current_node) of
        Some st \<Rightarrow> (case st_q st of Some x \<Rightarrow> x | None \<Rightarrow> rw_q ps)
      | None \<Rightarrow> rw_q ps)"

definition compute_prob :: "graph \<Rightarrow> nat \<Rightarrow> nat \<Rightarrow> rat \<Rightarrow> rat \<Rightarrow> number \<Rightarrow> error + number" where
  "compute_prob g src tgt p q weight =
     (if tgt = src then py_div weight p
      else if length (select_source_target g src tgt) > 0 then Inr weight
      else py_div weight q)"

text \<open>The body of the loop over \<open>current_node.neighbors()\<close>; the state is the pair of lists
  built so far. \<open>edge[weight_key][0]\<close> raises IndexError on an empty selection.\<close>

definition weights_step ::
  "RandomWalkParameters \<Rightarrow> graph \<Rightarrow> nat \<Rightarrow> nat \<Rightarrow> string set \<Rightarrow> nat \<Rightarrow>
   number list \<times> number list \<Rightarrow> error + (number list \<times> number list)" where
  "weights_step ps g src current_node first_travel_done tgt acc =
     (let p = get_p ps (v_name g current_node);
          q = get_q ps (v_name g current_node)
      in case select_between g current_node tgt of
           [] \<Rightarrow> Inl IndexError
         | e # _ \<Rightarrow>
             (case compute_prob g src tgt p q (e_weight e) of
                Inl err \<Rightarrow> Inl err
              | Inr w \<Rightarrow>
                  Inr (fst acc @ [w],
                       if v_name g current_node \<notin> first_travel_done
                       then snd acc @ [e_weight e] else snd acc)))"

definition compute_unnormalized_weights ::
  "RandomWalkParameters \<Rightarrow> graph \<Rightarrow> nat \<Rightarrow> nat \<Rightarrow> string set \<Rightarrow>
   error + (number list \<times> number list)" where
  "compute_unnormalized_weights ps g src current_node first_travel_done =
     for_loop (weights_step ps g src current_node first_travel_done)
       (neighbors g current_node) ([], [])"

text \<open>Assigning a vertex attribute creates the attribute on the graph when it is new.\<close>

definition set_vattr :: "(nat \<rightharpoonup> 'a) option \<Rightarrow> nat \<Rightarrow> 'a \<Rightarrow> (nat \<rightharpoonup> 'a) option" where
  "set_vattr attr v x = Some ((case attr of None \<Rightarrow> Map.empty | Some m \<Rightarrow> m)(v \<mapsto> x))"

text \<open>The body of the inner loop of \<open>_precompute_probs\<close>; the state is the graph and the set
  \<open>first_travel_done\<close>. \<open>current_node[PROBS_KEY][source['name']] = ...\<close> reads the vertex's
  dict and stores into it.\<close>

definition precompute_step ::
  "RandomWalkParameters \<Rightarrow> nat \<Rightarrow> nat \<Rightarrow> graph \<times> string set \<Rightarrow> error + (graph \<times> string set)" where
  "precompute_step ps src current_node st =
     (let g = fst st; first_travel_done = snd st
      in case compute_unnormalized_weights ps g src current_node first_travel_done of
           Inl err \<Rightarrow> Inl err
         | Inr (unnormalized_weights, first_travel_weights) \<Rightarrow>
             (case v_probabilities g of
                None \<Rightarrow> Inl KeyError
              | Some pm \<Rightarrow>
                  (case pm current_node of
                     None \<Rightarrow> Inl TypeError
                   | Some d \<Rightarrow>
                       (let g1 = g\<lparr>v_probabilities :=
                                   Some (pm(current_node \<mapsto>
                                     d(v_name g src \<mapsto> np_normalize unnormalized_weights)))\<rparr>
                        in if v_name g current_node \<notin> first_travel_done
                           then Inr (g1\<lparr>v_first_travel_key :=
                                          set_vattr (v_first_travel_key g1) current_node
                                            (np_normalize first_travel_weights)\<rparr>,
                                     insert (v_name g current_node) first_travel_done)
                           else Inr (g1, first_travel_done)))))"

text \<open>The first loop of \<open>_precompute_probs\<close>: \<open>node[PROBS_KEY] = dict()\<close> for every node.\<close>

definition init_probabilities :: "nat list \<Rightarrow> graph \<Rightarrow> graph" where
  "init_probabilities xs g =
     fold (\<lambda>node h. h\<lparr>v_probabilities := set_vattr (v_probabilities h) node Map.empty\<rparr>) xs g"

definition precompute_probs :: "RandomWalkParameters \<Rightarrow> graph \<Rightarrow> error + graph" where
  "precompute_probs ps g =
     (let g0 = init_probabilities (vs g) g
      in case for_loop
                (\<lambda>src st. for_loop (precompute_step ps src) (neighbors (fst st) src) st)
                (vs g0) (g0, {}) of
           Inl err \<Rightarrow> Inl err
         | Inr st \<Rightarrow> Inr (fst st))"

text \<open>\<open>Node2VecModel.__init__\<close>: \<open>self.graph\<close> is the caller's graph object itself, so the
  graph returned here is the state of the caller's graph after construction.\<close>

definition Node2VecModel_init :: "graph \<Rightarrow> RandomWalkParameters \<Rightarrow> error + graph" where
  "Node2VecModel_init g ps =
     (let g1 = (if \<not> is_weighted ps
                then g\<lparr>g_es := map (\<lambda>e. e\<lparr>e_weight := PyInt 1\<rparr>) (g_es g)\<rparr> else g)
      in precompute_probs ps g1)"

section \<open>The random sources\<close>

text \<open>
  The code draws from two generators: Python's \<open>random\<close> module and \<open>numpy.random\<close>. Each
  is a stream of numbers and a position in it; a draw is the fractional part of the
  next number, a value in the half-open unit interval, as \<open>random.random()\<close> returns.
\<close>

record rng =
  py_draws :: "nat \<Rightarrow> rat"
  py_pos :: nat
  np_draws :: "nat \<Rightarrow> rat"
  np_pos :: nat

definition random_random :: "rng \<Rightarrow> rat \<times> rng" where
  "random_random r = (frac (py_draws r (py_pos r)), r\<lparr>py_pos := Suc (py_pos r)\<rparr>)"

definition randbelow :: "nat \<Rightarrow> rng \<Rightarrow> nat \<times> rng" where
  "randbelow n r = (nat \<lfloor>fst (random_random r) * of_nat n\<rfloor>, snd (random_random r))"

text \<open>\<open>random.choice(xs)\<close>: IndexError on an empty sequence.\<close>

definition random_choice :: "'a list \<Rightarrow> rng \<Rightarrow> error + ('a \<times> rng)" where
  "random_choice xs r =
     (if xs = [] then Inl IndexError
      else Inr (xs ! fst (randbelow (length xs) r), snd (randbelow (length xs) r)))"

text \<open>\<open>random.shuffle(xs)\<close>: for i from the last index down to 1, swap position i with a
  position drawn below i + 1.\<close>

fun shuffle_loop :: "nat \<Rightarrow> 'a list \<Rightarrow> rng \<Rightarrow> 'a list \<times> rng" where
  "shuffle_loop 0 xs r = (xs, r)"
| "shuffle_loop (Suc i) xs r =
     (let j = fst (randbelow (Suc i + 1) r)
      in shuffle_loop i (xs[Suc i := xs ! j, j := xs ! Suc i]) (snd (randbelow (Suc i + 1) r)))"

definition random_shuffle :: "'a list \<Rightarrow> rng \<Rightarrow> 'a list \<times> rng" where
  "random_shuffle xs r = shuffle_loop (length xs - 1) xs r"

definition np_random_sample :: "rng \<Rightarrow> rat \<times> rng" where
  "np_random_sample r = (frac (np_draws r (np_pos r)), r\<lparr>np_pos := Suc (np_pos r)\<rparr>)"

fun cumsum :: "rat \<Rightarrow> rat list \<Rightarrow> rat list" where
  "cumsum acc [] = []"
| "cumsum acc (x # xs) = (acc + x) # cumsum (acc + x) xs"

text \<open>
  \<open>np.random.choice(a, p=p)\<close>, one sample. ValueError when \<open>a\<close> is empty, when \<open>p\<close> has
  another length than \<open>a\<close>, a nan, a negative entry, or does not sum to 1. With \<open>p\<close> the
  index is where the uniform draw falls in the cumulative sums (\<open>searchsorted\<close>, side
  right); with \<open>p = None\<close> it is a uniform index.
\<close>

definition np_random_choice :: "'a list \<Rightarrow> ndarray option \<Rightarrow> rng \<Rightarrow> error + ('a \<times> rng)" where
  "np_random_choice a p r =
     (if a = [] then Inl ValueError
      else case p of
        None \<Rightarrow>
          Inr (a ! nat \<lfloor>fst (np_random_sample r) * of_nat (length a)\<rfloor>, snd (np_random_sample r))
      | Some NonFinite \<Rightarrow> Inl ValueError
      | Some (Array probs) \<Rightarrow>
          if length probs \<noteq> length a \<or> list_ex (\<lambda>x. x < 0) probs \<or> sum_list probs \<noteq> 1
          then Inl ValueError
          else Inr (a ! length (filter (\<lambda>c. c \<le> fst (np_random_sample r)) (cumsum 0 probs)),
                    snd (np_random_sample r)))"

section \<open>The walkers\<close>

text \<open>
  A walk is a generator. Draining it gives the list of the values it yields, the
  exception that ended it if one did, and the random state it leaves.
\<close>

type_synonym 'a walk = "'a list \<times> error option \<times> rng"

function standard_loop ::
  "RandomWalkParameters \<Rightarrow> graph \<Rightarrow> nat \<Rightarrow> int \<Rightarrow> rng \<Rightarrow> string list \<Rightarrow> string walk" where
  "standard_loop ps g tail path_length r out =
     (if path_length < max_path_length ps \<and> neighborhood_size g tail \<noteq> 0 then
        (case random_choice (neighbors g tail) r of
           Inl err \<Rightarrow> (out, Some err, r)
         | Inr c \<Rightarrow> standard_loop ps g (fst c) (path_length + 1) (snd c) (out @ [v_label g (fst c)]))
      else (out, None, r))"
  by pat_completeness auto
termination
  by (relation "measure (\<lambda>(ps, g, tail, path_length, r, out). nat (max_path_length ps - path_length))")
    auto

definition StandardRandomWalker_get_igraph_walk ::
  "RandomWalkParameters \<Rightarrow> graph \<Rightarrow> nat \<Rightarrow> rng \<Rightarrow> string walk" where
  "StandardRandomWalker_get_igraph_walk ps g vertex r =
     standard_loop ps g vertex 1 r [v_label g vertex]"

function restarting_loop ::
  "RandomWalkParameters \<Rightarrow> graph \<Rightarrow> nat \<Rightarrow> nat \<Rightarrow> int \<Rightarrow> rng \<Rightarrow> string list \<Rightarrow> string walk" where
  "restarting_loop ps g vertex tail path_length r out =
     (if path_length < max_path_length ps \<and> neighborhood_size g tail \<noteq> 0 then
        (if restart_probability ps \<le> fst (random_random r) then
           restarting_loop ps g vertex vertex (path_length + 1) (snd (random_random r))
             (out @ [v_label g vertex])
         else
           (case random_choice (neighbors g tail) (snd (random_random r)) of
              Inl err \<Rightarrow> (out, Some err, snd (random_random r))
            | Inr c \<Rightarrow>
                restarting_loop ps g vertex (fst c) (path_length + 1) (snd c)
                  (out @ [v_label g (fst c)])))
      else (out, None, r))"
  by pat_completeness auto
termination
  by (relation "measure (\<lambda>(ps, g, vertex, tail, path_length, r, out).
        nat (max_path_length ps - path_length))") auto

definition RestartingRandomWalker_get_igraph_walk ::
  "RandomWalkParameters \<Rightarrow> graph \<Rightarrow> nat \<Rightarrow> rng \<Rightarrow> string walk" where
  "RestartingRandomWalker_get_igraph_walk ps g vertex r =
     restarting_loop ps g vertex vertex 1 r [v_label g vertex]"

definition check :: "RandomWalkParameters \<Rightarrow> nat \<Rightarrow> bool" where
  "check ps vertex =
     (case sampling_strategy ps (VertexKey vertex) of
        None \<Rightarrow> False
      | Some st \<Rightarrow> (case st_num_walks st of None \<Rightarrow> False | Some n \<Rightarrow> n \<le> number_paths ps))"

text \<open>The \<open>while\<close> loop of the second-order walker. Reading
  \<open>tail[PROBABILITIES_KEY][double_tail['name']]\<close> raises KeyError without the attribute or
  the dict entry, TypeError on a vertex whose value is None.\<close>

function biased_loop ::
  "graph \<Rightarrow> int \<Rightarrow> nat \<Rightarrow> nat \<Rightarrow> int \<Rightarrow> rng \<Rightarrow> nat list \<Rightarrow> nat walk" where
  "biased_loop g walk_length double_tail tail path_length r out =
     (if path_length < walk_length then
        (if neighbors g tail = [] then (out, None, r)
         else
           (case v_probabilities g of
              None \<Rightarrow> (out, Some KeyError, r)
            | Some pm \<Rightarrow>
                (case pm tail of
                   None \<Rightarrow> (out, Some TypeError, r)
                 | Some d \<Rightarrow>
                     (case d (v_name g double_tail) of
                        None \<Rightarrow> (out, Some KeyError, r)
                      | Some probabilities \<Rightarrow>
                          (case np_random_choice (neighbors g tail) (Some probabilities) r of
                             Inl err \<Rightarrow> (out, Some err, r)
                           | Inr c \<Rightarrow>
                               biased_loop g walk_length tail (fst c) (path_length + 1) (snd c)
                                 (out @ [fst c]))))))
      else (out, None, r))"
  by pat_completeness auto
termination
  by (relation "measure (\<lambda>(g, walk_length, double_tail, tail, path_length, r, out).
        nat (walk_length - path_length))") auto

text \<open>One pass of the second-order loop either stops or makes a draw and goes on.\<close>

definition biased_draw :: "graph \<Rightarrow> nat \<Rightarrow> nat \<Rightarrow> rng \<Rightarrow> (nat \<times> rng) option" where
  "biased_draw g double_tail tail r =
     (case v_probabilities g of
        None \<Rightarrow> None
      | Some pm \<Rightarrow>
          (case pm tail of
             None \<Rightarrow> None
           | Some d \<Rightarrow>
               (case d (v_name g double_tail) of
                  None \<Rightarrow> None
                | Some probabilities \<Rightarrow>
                    (case np_random_choice (neighbors g tail) (Some probabilities) r of
                       Inl err \<Rightarrow> None
                     | Inr c \<Rightarrow> Some c))))"

definition walk_length_of :: "RandomWalkParameters \<Rightarrow> nat \<Rightarrow> int" where
  "walk_length_of ps vertex =
     (case sampling_strategy ps (VertexKey vertex) of
        Some st \<Rightarrow> (case st_walk_length st of Some n \<Rightarrow> n | None \<Rightarrow> max_path_length ps)
      | None \<Rightarrow> max_path_length ps)"

text \<open>The Vertex that \<open>np.random.choice\<close> returns is truthy (it carries the attribute just
  read), so the \<open>if not tail: return\<close> after the first draw never returns.\<close>

definition BiasedRandomWalker_get_igraph_walk ::
  "RandomWalkParameters \<Rightarrow> graph \<Rightarrow> nat \<Rightarrow> rng \<Rightarrow> nat walk" where
  "BiasedRandomWalker_get_igraph_walk ps g vertex r =
     (if max_path_length ps < 2 then ([], Some ValueError, r)
      else if check ps vertex then ([], None, r)
      else
        (case v_first_travel_key g of
           None \<Rightarrow> ([vertex], Some KeyError, r)
         | Some ft \<Rightarrow>
             (case np_random_choice (neighbors g vertex) (ft vertex) r of
                Inl err \<Rightarrow> ([vertex], Some err, r)
              | Inr c \<Rightarrow>
                  biased_loop g (walk_length_of ps vertex) vertex (fst c) 2 (snd c)
                    [vertex, fst c])))"

section \<open>The orchestrator\<close>

text \<open>
  \<open>get_walks\<close> yields one generator per vertex and repetition. The consumer drains each
  walk before it asks for the next, and an exception in a walk ends the run: the result
  is the list of the walks that ended normally, the emitted part and the exception of the
  walk that raised (if one did), and the random state. \<open>get_walk\<close> is the walker's method;
  the class that dispatches it to \<open>get_igraph_walk\<close> is not among the sources, so it is a
  parameter here.
\<close>

type_synonym 'a corpus = "'a list list \<times> ('a list \<times> error) option \<times> rng"

fun walks_from ::
  "(graph \<Rightarrow> nat \<Rightarrow> rng \<Rightarrow> 'a walk) \<Rightarrow> graph \<Rightarrow> nat list \<Rightarrow> rng \<Rightarrow> 'a corpus" where
  "walks_from get_walk g [] r = ([], None, r)"
| "walks_from get_walk g (vertex # rest) r =
     (case get_walk g vertex r of
        (w, Some err, r') \<Rightarrow> ([], Some (w, err), r')
      | (w, None, r') \<Rightarrow>
          (case walks_from get_walk g rest r' of (ws, failure, r'') \<Rightarrow> (w # ws, failure, r'')))"

fun get_walks_loop ::
  "(graph \<Rightarrow> nat \<Rightarrow> rng \<Rightarrow> 'a walk) \<Rightarrow> graph \<Rightarrow> nat \<Rightarrow> rng \<Rightarrow> 'a corpus" where
  "get_walks_loop get_walk g 0 r = ([], None, r)"
| "get_walks_loop get_walk g (Suc n) r =
     (let vertices = random_shuffle (vs g) r
      in case walks_from get_walk g (vs g) (snd vertices) of
           (ws, Some failure, r') \<Rightarrow> (ws, Some failure, r')
         | (ws, None, r') \<Rightarrow>
             (case get_walks_loop get_walk g n r' of
                (ws', failure, r'') \<Rightarrow> (ws @ ws', failure, r'')))"

definition get_walks ::
  "RandomWalkParameters \<Rightarrow> (graph \<Rightarrow> nat \<Rightarrow> rng \<Rightarrow> 'a walk) \<Rightarrow> graph \<Rightarrow> rng \<Rightarrow> 'a corpus" where
  "get_walks ps get_walk g r = get_walks_loop get_walk g (nat (number_paths ps)) r"

section \<open>The spec's transition weights, and what the proofs speak of\<close>

text \<open>
  The spec's unnormalized second-order weight of neighbor x of v, coming from u:
  \<open>edgeWeight(v,x) / p(v)\<close> when x is u, \<open>edgeWeight(v,x)\<close> when x is not u and an edge
  exists between u and x (in a directed graph: from u to x), \<open>edgeWeight(v,x) / q(v)\<close>
  otherwise. \<open>edgeWeight(v,x)\<close> is the weight of the first edge between v and x. The
  weights are Python numbers: a quotient is a float, the weight of an edge is the number
  that the edge carries.
\<close>

definition edgeWeight :: "graph \<Rightarrow> nat \<Rightarrow> nat \<Rightarrow> number" where
  "edgeWeight g v x = (case select_between g v x of [] \<Rightarrow> PyInt 0 | e # _ \<Rightarrow> e_weight e)"

definition edge_exists :: "graph \<Rightarrow> nat \<Rightarrow> nat \<Rightarrow> bool" where
  "edge_exists g u x =
     list_ex (\<lambda>e. (e_source e = u \<and> e_target e = x) \<or>
                  (\<not> g_directed g \<and> e_source e = x \<and> e_target e = u)) (g_es g)"

definition second_order_weight ::
  "RandomWalkParameters \<Rightarrow> graph \<Rightarrow> nat \<Rightarrow> nat \<Rightarrow> nat \<Rightarrow> number" where
  "second_order_weight ps g u v x =
     (if x = u then PyFloat (num_value (edgeWeight g v x) / get_p ps (v_name g v))
      else if edge_exists g u x then edgeWeight g v x
      else PyFloat (num_value (edgeWeight g v x) / get_q ps (v_name g v)))"

text \<open>What \<open>_precompute_probs\<close> never writes.\<close>

definition frame :: "graph \<Rightarrow> nat \<times> bool \<times> edge list \<times> (nat \<Rightarrow> string)" where
  "frame g = (g_vcount g, g_directed g, g_es g, v_name g)"

text \<open>The reads \<open>v[PROBS_KEY][name]\<close> and \<open>v[FIRST_TRAVEL_KEY]\<close>, None when absent.\<close>

definition stored_probabilities :: "graph \<Rightarrow> nat \<Rightarrow> string \<Rightarrow> ndarray option" where
  "stored_probabilities g v nm =
     (case v_probabilities g of
        None \<Rightarrow> None
      | Some pm \<Rightarrow> (case pm v of None \<Rightarrow> None | Some d \<Rightarrow> d nm))"

definition stored_first_travel :: "graph \<Rightarrow> nat \<Rightarrow> ndarray option" where
  "stored_first_travel g v = (case v_first_travel_key g of None \<Rightarrow> None | Some ft \<Rightarrow> ft v)"

text \<open>An array of n positive entries that sum to 1.\<close>

definition is_distribution :: "nat \<Rightarrow> ndarray \<Rightarrow> bool" where
  "is_distribution n a =
     (case a of
        NonFinite \<Rightarrow> False
      | Array xs \<Rightarrow> length xs = n \<and> list_all (\<lambda>x. 0 < x) xs \<and> sum_list xs = 1)"

text \<open>Well-formed input graphs: edges join vertices of the graph; weights are positive.\<close>

definition valid_edges :: "graph \<Rightarrow> bool" where
  "valid_edges g = list_all (\<lambda>e. e_source e < g_vcount g \<and> e_target e < g_vcount g) (g_es g)"

definition positive_weights :: "graph \<Rightarrow> bool" where
  "positive_weights g = list_all (\<lambda>e. 0 < num_value (e_weight e)) (g_es g)"

text \<open>The pairs (source, current_node) in the order the nested loops visit them.\<close>

definition vertex_pairs :: "graph \<Rightarrow> (nat \<times> nat) list" where
  "vertex_pairs g = concat (map (\<lambda>src. map (Pair src) (neighbors g src)) (vs g))"

text \<open>Vertex v carries the dict d under 'probabilities'.\<close>

definition has_dict :: "graph \<Rightarrow> nat \<Rightarrow> (string \<rightharpoonup> ndarray) \<Rightarrow> bool" where
  "has_dict g v d = (\<exists>pm. v_probabilities g = Some pm \<and> pm v = Some d)"

text \<open>The spec's parameter invariant (p, q > 0 after resolution), its weakening to
  nonzero, and vertex names that identify the vertex.\<close>

definition positive_parameters :: "RandomWalkParameters \<Rightarrow> graph \<Rightarrow> bool" where
  "positive_parameters ps g =
     list_all (\<lambda>v. 0 < get_p ps (v_name g v) \<and> 0 < get_q ps (v_name g v)) (vs g)"

definition nonzero_parameters :: "RandomWalkParameters \<Rightarrow> graph \<Rightarrow> bool" where
  "nonzero_parameters ps g =
     list_all (\<lambda>v. get_p ps (v_name g v) \<noteq> 0 \<and> get_q ps (v_name g v) \<noteq> 0) (vs g)"

definition distinct_names :: "graph \<Rightarrow> bool" where
  "distinct_names g = distinct (map (v_name g) (vs g))"

text \<open>
  Magnitudes that the machine arithmetic represents. At every vertex the weights of the
  edges to its neighbors add up to less than \<open>2^63\<close>, so that no 64-bit sum of integer
  weights wraps around; every weight is at least \<open>2^-100\<close>, every resolved p and q lies
  between \<open>2^-100\<close> and \<open>2^100\<close>, and the graph has fewer than \<open>2^32\<close> edges, so that
  every float quotient and sum stays a normal float, far from overflow and underflow,
  and differs from the exact value by rounding only.
\<close>

definition magnitudes_in_range :: "RandomWalkParameters \<Rightarrow> graph \<Rightarrow> bool" where
  "magnitudes_in_range ps g =
     (int (length (g_es g)) < 2 ^ 32 \<and>
      list_all (\<lambda>e. 1 / 2 ^ 100 \<le> num_value (e_weight e)) (g_es g) \<and>
      list_all (\<lambda>v. sum_list (map (\<lambda>x. num_value (edgeWeight g v x)) (neighbors g v)) < 2 ^ 63)
        (vs g) \<and>
      list_all (\<lambda>v. 1 / 2 ^ 100 \<le> get_p ps (v_name g v) \<and> get_p ps (v_name g v) \<le> 2 ^ 100 \<and>
                    1 / 2 ^ 100 \<le> get_q ps (v_name g v) \<and> get_q ps (v_name g v) \<le> 2 ^ 100)
        (vs g))"

text \<open>The body of the nested loops on a pair, and what holds of the loop state (the graph
  and \<open>first_travel_done\<close>) between two passes: nothing but the two attributes has
  changed, every vertex has its dict, the arrays stored at a vertex are good for that
  vertex, and a vertex whose name is in \<open>first_travel_done\<close> has a good first-travel
  array. A pair is visited once its entry is stored.\<close>

definition pair_step ::
  "RandomWalkParameters \<Rightarrow> nat \<times> nat \<Rightarrow> graph \<times> string set \<Rightarrow> error + (graph \<times> string set)" where
  "pair_step ps pr = precompute_step ps (fst pr) (snd pr)"


definition precompute_inv ::
  "(nat \<Rightarrow> ndarray \<Rightarrow> bool) \<Rightarrow> graph \<Rightarrow> graph \<times> string set \<Rightarrow> bool" where
  "precompute_inv good g0 st =
     (frame (fst st) = frame g0 \<and>
      (\<forall>v < g_vcount g0. \<exists>d. has_dict (fst st) v d \<and> (\<forall>nm a. d nm = Some a \<longrightarrow> good v a)) \<and>
      (\<forall>v < g_vcount g0. v_name g0 v \<in> snd st \<longrightarrow>
          (\<exists>a. stored_first_travel (fst st) v = Some a \<and> good v a)))"

definition visited :: "graph \<Rightarrow> nat \<times> nat \<Rightarrow> graph \<times> string set \<Rightarrow> bool" where
  "visited g0 pr st =
     (v_name g0 (snd pr) \<in> snd st \<and>
      (\<exists>d a. has_dict (fst st) (snd pr) d \<and> d (v_name g0 (fst pr)) = Some a))"


text \<open>The number of walks the spec has the orchestrator yield: \<open>number_paths\<close> times the
  vertex count, minus the walks of the vertices the skip rule skips.\<close>

definition claimed_walk_count :: "RandomWalkParameters \<Rightarrow> graph \<Rightarrow> nat" where
  "claimed_walk_count ps g =
     nat (number_paths ps) * g_vcount g - nat (number_paths ps) * length (filter (check ps) (vs g))"

text \<open>Two random states with the same Python generator, or the same numpy generator; two
  outcomes with the same values and exception, whose random states are so related; a
  walker whose outcome depends on the random state through that generator only.\<close>

definition same_python_state :: "rng \<Rightarrow> rng \<Rightarrow> bool" where
  "same_python_state r1 r2 = (py_draws r1 = py_draws r2 \<and> py_pos r1 = py_pos r2)"

definition same_numpy_state :: "rng \<Rightarrow> rng \<Rightarrow> bool" where
  "same_numpy_state r1 r2 = (np_draws r1 = np_draws r2 \<and> np_pos r1 = np_pos r2)"

definition same_outcome :: "(rng \<Rightarrow> rng \<Rightarrow> bool) \<Rightarrow> 'a \<times> 'b \<times> rng \<Rightarrow> 'a \<times> 'b \<times> rng \<Rightarrow> bool" where
  "same_outcome R x y = (fst x = fst y \<and> fst (snd x) = fst (snd y) \<and> R (snd (snd x)) (snd (snd y)))"

definition reads_only :: "(rng \<Rightarrow> rng \<Rightarrow> bool) \<Rightarrow> (graph \<Rightarrow> nat \<Rightarrow> rng \<Rightarrow> 'a walk) \<Rightarrow> bool" where
  "reads_only R get_walk =
     (\<forall>g v r1 r2. R r1 r2 \<longrightarrow> same_outcome R (get_walk g v r1) (get_walk g v r2))"

section \<open>Example inputs\<close>

text \<open>The defaults of the dataclass \<open>RandomWalkParameters\<close>.\<close>

definition default_params :: RandomWalkParameters where
  "default_params =
     \<lparr>number_paths = 10, max_path_length = 40, restart_probability = 0, rw_p = 1, rw_q = 1,
      sampling_strategy = Map.empty, is_directed = False, is_weighted = True\<rparr>"

text \<open>The triangle A-B-C of edges of weight 1 (the int), and the bias scenario p = 0.5,
  q = 2.\<close>

definition abc :: "nat \<Rightarrow> string" where
  "abc v = (if v = 0 then ''A'' else if v = 1 then ''B'' else ''C'')"

definition triangle :: graph where
  "triangle =
     \<lparr>g_vcount = 3, g_directed = False,
      g_es = [\<lparr>e_source = 0, e_target = 1, e_weight = PyInt 1\<rparr>,
              \<lparr>e_source = 1, e_target = 2, e_weight = PyInt 1\<rparr>,
              \<lparr>e_source = 0, e_target = 2, e_weight = PyInt 1\<rparr>],
      v_name = abc, v_label = abc, v_probabilities = None, v_first_travel_key = None\<rparr>"

definition bias_params :: RandomWalkParameters where
  "bias_params = default_params\<lparr>rw_p := 1 / 2, rw_q := 2\<rparr>"

text \<open>A graph of one vertex and no edge.\<close>

definition lonely :: graph where
  "lonely =
     \<lparr>g_vcount = 1, g_directed = False, g_es = [],
      v_name = abc, v_label = abc, v_probabilities = None, v_first_travel_key = None\<rparr>"

text \<open>An edge A-B and an isolated vertex C.\<close>

definition edge_and_lonely :: graph where
  "edge_and_lonely =
     \<lparr>g_vcount = 3, g_directed = False,
      g_es = [\<lparr>e_source = 0, e_target = 1, e_weight = PyInt 1\<rparr>],
      v_name = abc, v_label = abc, v_probabilities = None, v_first_travel_key = None\<rparr>"

text \<open>A random source whose every draw is 1/2.\<close>

definition rng0 :: rng where
  "rng0 = \<lparr>py_draws = (\<lambda>n. 1 / 2), py_pos = 0, np_draws = (\<lambda>n. 1 / 2), np_pos = 0\<rparr>"

text \<open>The defaults with \<open>max_path_length = 1\<close>.\<close>

definition short_params :: RandomWalkParameters where
  "short_params = default_params\<lparr>max_path_length := 1\<rparr>"

text \<open>The defaults with \<open>max_path_length = 5\<close> and a strategy for vertex A (under both of
  its keys) whose only entry is \<open>walk_length = 2\<close>.\<close>

definition override_params :: RandomWalkParameters where
  "override_params =
     default_params\<lparr>max_path_length := 5,
       sampling_strategy :=
         [VertexKey 0 \<mapsto> \<lparr>st_p = None, st_q = None, st_num_walks = None, st_walk_length = Some 2\<rparr>,
          NameKey ''A'' \<mapsto> \<lparr>st_p = None, st_q = None, st_num_walks = None, st_walk_length = Some 2\<rparr>]\<rparr>"





text \<open>The path A-B-C whose two edges have the int weight \<open>2^62\<close>.\<close>

definition huge_path :: graph where
  "huge_path =
     \<lparr>g_vcount = 3, g_directed = False,
      g_es = [\<lparr>e_source = 0, e_target = 1, e_weight = PyInt (2 ^ 62)\<rparr>,
              \<lparr>e_source = 1, e_target = 2, e_weight = PyInt (2 ^ 62)\<rparr>],
      v_name = abc, v_label = abc, v_probabilities = None, v_first_travel_key = None\<rparr>"

text \<open>One repetition, paths of length 2, and vertex A with \<open>num_walks = 1\<close>.\<close>

definition skip_params :: RandomWalkParameters where
  "skip_params =
     default_params\<lparr>number_paths := 1, max_path_length := 2,
       sampling_strategy :=
         [VertexKey 0 \<mapsto> \<lparr>st_p = None, st_q = None, st_num_walks = Some 1, st_walk_length = None\<rparr>]\<rparr>"

text \<open>The triangle as \<open>Node2VecModel\<close> leaves it, two repetitions of paths of length 3,
  and random sources that differ from \<open>rng0\<close> in the Python generator only (\<open>rng1\<close>)
  and in the numpy generator only (\<open>rng2\<close>).\<close>

definition prepared_triangle :: graph where
  "prepared_triangle =
     (case Node2VecModel_init triangle default_params of Inl err \<Rightarrow> triangle | Inr g \<Rightarrow> g)"

definition three_step_params :: RandomWalkParameters where
  "three_step_params = default_params\<lparr>number_paths := 2, max_path_length := 3\<rparr>"

definition rng1 :: rng where
  "rng1 = \<lparr>py_draws = (\<lambda>n. 1 / 3), py_pos = 7, np_draws = (\<lambda>n. 1 / 2), np_pos = 0\<rparr>"

definition rng2 :: rng where
  "rng2 = \<lparr>py_draws = (\<lambda>n. 1 / 2), py_pos = 0, np_draws = (\<lambda>n. 1 / 5), np_pos = 3\<rparr>"

section \<open>Lengths of walks\<close>

declare standard_loop.simps [simp del] restarting_loop.simps [simp del] biased_loop.simps [simp del]

lemma standard_loop_length:
  "length out \<le> length (fst (standard_loop ps g t pl r out)) \<and>
   int (length (fst (standard_loop ps g t pl r out)))
     \<le> int (length out) + max 0 (max_path_length ps - pl)"
proof (induction ps g t pl r out rule: standard_loop.induct)
  case (1 ps g tail path_length r out)
  note unroll = standard_loop.simps [of ps g tail path_length r out]
  show ?case
  proof (cases "path_length < max_path_length ps \<and> neighborhood_size g tail \<noteq> 0")
    case False
    then show ?thesis by (auto simp add: unroll)
  next
    case True
    show ?thesis
    proof (cases "random_choice (neighbors g tail) r")
      case (Inl err)
      with True show ?thesis by (simp add: unroll)
    next
      case (Inr c)
      from "1.IH" [OF True Inr] True Inr show ?thesis by (simp add: unroll)
    qed
  qed
qed

lemma restarting_loop_length:
  "length out \<le> length (fst (restarting_loop ps g v t pl r out)) \<and>
   int (length (fst (restarting_loop ps g v t pl r out)))
     \<le> int (length out) + max 0 (max_path_length ps - pl)"
proof (induction ps g v t pl r out rule: restarting_loop.induct)
  case (1 ps g vertex tail path_length r out)
  note unroll = restarting_loop.simps [of ps g vertex tail path_length r out]
  show ?case
  proof (cases "path_length < max_path_length ps \<and> neighborhood_size g tail \<noteq> 0")
    case False
    then show ?thesis by (auto simp add: unroll)
  next
    case True
    show ?thesis
    proof (cases "restart_probability ps \<le> fst (random_random r)")
      case restart: True
      from "1.IH"(1) [OF True restart] True restart show ?thesis by (simp add: unroll)
    next
      case onward: False
      show ?thesis
      proof (cases "random_choice (neighbors g tail) (snd (random_random r))")
        case (Inl err)
        with True onward show ?thesis by (simp add: unroll)
      next
        case (Inr c)
        from "1.IH"(2) [OF True onward Inr] True onward Inr show ?thesis by (simp add: unroll)
      qed
    qed
  qed
qed

lemma biased_loop_stop:
  assumes "\<not> (path_length < walk_length \<and> neighbors g tail \<noteq> [])
           \<or> biased_draw g double_tail tail r = None"
  shows "fst (biased_loop g walk_length double_tail tail path_length r out) = out"
  using assms
  by (auto simp add: biased_loop.simps [of g walk_length double_tail tail path_length r out]
      biased_draw_def split: option.splits sum.splits)

lemma biased_loop_go:
  assumes "path_length < walk_length" and "neighbors g tail \<noteq> []"
    and "biased_draw g double_tail tail r = Some c"
  shows "biased_loop g walk_length double_tail tail path_length r out =
         biased_loop g walk_length tail (fst c) (path_length + 1) (snd c) (out @ [fst c])"
  using assms
  by (auto simp add: biased_loop.simps [of g walk_length double_tail tail path_length r out]
      biased_draw_def split: option.splits sum.splits)

lemma biased_loop_length:
  "(\<exists>ys. fst (biased_loop g wl dt t pl r out) = out @ ys) \<and>
   int (length (fst (biased_loop g wl dt t pl r out))) \<le> int (length out) + max 0 (wl - pl)"
proof (induction g wl dt t pl r out rule: biased_loop.induct)
  case (1 g walk_length double_tail tail path_length r out)
  show ?case
  proof (cases "path_length < walk_length \<and> neighbors g tail \<noteq> []")
    case False
    then show ?thesis by (simp add: biased_loop_stop)
  next
    case True
    then have a: "path_length < walk_length" and b: "neighbors g tail \<noteq> []" by auto
    show ?thesis
    proof (cases "biased_draw g double_tail tail r")
      case None
      then show ?thesis by (simp add: biased_loop_stop)
    next
      case (Some c)
      then obtain pm d probs where s: "v_probabilities g = Some pm" "pm tail = Some d"
        "d (v_name g double_tail) = Some probs"
        "np_random_choice (neighbors g tail) (Some probs) r = Inr c"
        by (auto simp add: biased_draw_def split: option.splits sum.splits)
      from "1.IH" [OF a b s] a show ?thesis
        by (auto simp add: biased_loop_go [OF a b Some])
    qed
  qed
qed

lemma neighborhood_size_pos: "neighborhood_size g v \<noteq> 0"
  by (auto simp add: neighborhood_size_def)

text \<open>
  C8, as amended. The uniform and the restarting walker never read the sampling
  strategy: with \<open>max_path_length \<ge> 1\<close> their walks hold at least 1 and at most
  \<open>max_path_length\<close> vertices. The second-order walker (\<open>max_path_length \<ge> 2\<close>) emits
  nothing for a vertex it skips; for any other vertex whose effective walk length (the
  vertex's \<open>walk_length\<close> override if present, else \<open>max_path_length\<close>) is at least 2, it
  emits at least 1 and at most that many vertices. The bounds hold for the vertices
  emitted before an exception as well.
\<close>

theorem C8_walk_length_bounds:
  "(1 \<le> max_path_length ps \<longrightarrow>
      1 \<le> length (fst (StandardRandomWalker_get_igraph_walk ps g vertex r)) \<and>
      int (length (fst (StandardRandomWalker_get_igraph_walk ps g vertex r))) \<le> max_path_length ps \<and>
      1 \<le> length (fst (RestartingRandomWalker_get_igraph_walk ps g vertex r)) \<and>
      int (length (fst (RestartingRandomWalker_get_igraph_walk ps g vertex r))) \<le> max_path_length ps) \<and>
   (2 \<le> max_path_length ps \<and> check ps vertex \<longrightarrow>
      BiasedRandomWalker_get_igraph_walk ps g vertex r = ([], None, r)) \<and>
   (2 \<le> max_path_length ps \<and> \<not> check ps vertex \<and> 2 \<le> walk_length_of ps vertex \<longrightarrow>
      1 \<le> length (fst (BiasedRandomWalker_get_igraph_walk ps g vertex r)) \<and>
      int (length (fst (BiasedRandomWalker_get_igraph_walk ps g vertex r)))
        \<le> walk_length_of ps vertex)"
proof -
  have std: "1 \<le> length (fst (StandardRandomWalker_get_igraph_walk ps g vertex r)) \<and>
      int (length (fst (StandardRandomWalker_get_igraph_walk ps g vertex r))) \<le> max_path_length ps"
    if "1 \<le> max_path_length ps"
    using that standard_loop_length [of "[v_label g vertex]" ps g vertex 1 r]
    by (simp add: StandardRandomWalker_get_igraph_walk_def)
  have rst: "1 \<le> length (fst (RestartingRandomWalker_get_igraph_walk ps g vertex r)) \<and>
      int (length (fst (RestartingRandomWalker_get_igraph_walk ps g vertex r))) \<le> max_path_length ps"
    if "1 \<le> max_path_length ps"
    using that restarting_loop_length [of "[v_label g vertex]" ps g vertex vertex 1 r]
    by (simp add: RestartingRandomWalker_get_igraph_walk_def)
  have skip: "BiasedRandomWalker_get_igraph_walk ps g vertex r = ([], None, r)"
    if "2 \<le> max_path_length ps" and "check ps vertex"
    using that by (simp add: BiasedRandomWalker_get_igraph_walk_def)
  have bia: "1 \<le> length (fst (BiasedRandomWalker_get_igraph_walk ps g vertex r)) \<and>
      int (length (fst (BiasedRandomWalker_get_igraph_walk ps g vertex r)))
        \<le> walk_length_of ps vertex"
    if a: "2 \<le> max_path_length ps" and b: "\<not> check ps vertex"
      and c: "2 \<le> walk_length_of ps vertex"
  proof (cases "\<exists>ft c. v_first_travel_key g = Some ft \<and>
                  np_random_choice (neighbors g vertex) (ft vertex) r = Inr c")
    case False
    with a b c show ?thesis
      by (auto simp add: BiasedRandomWalker_get_igraph_walk_def split: option.splits sum.splits)
  next
    case True
    then obtain ft d where s: "v_first_travel_key g = Some ft"
      "np_random_choice (neighbors g vertex) (ft vertex) r = Inr d" by blast
    from a b c s
      biased_loop_length [of g "walk_length_of ps vertex" vertex "fst d" 2 "snd d" "[vertex, fst d]"]
    show ?thesis
      by (auto simp add: BiasedRandomWalker_get_igraph_walk_def)
  qed
  from std rst skip bia show ?thesis by blast
qed

theorem C8_walk_length_bounds_witness:
  "1 \<le> max_path_length override_params \<and> 2 \<le> max_path_length override_params \<and>
   \<not> check override_params 0 \<and> 2 \<le> walk_length_of override_params 0 \<and>
   1 \<le> length (fst (StandardRandomWalker_get_igraph_walk override_params triangle 0 rng0)) \<and>
   int (length (fst (StandardRandomWalker_get_igraph_walk override_params triangle 0 rng0)))
     \<le> max_path_length override_params \<and>
   1 \<le> length (fst (RestartingRandomWalker_get_igraph_walk override_params triangle 0 rng0)) \<and>
   int (length (fst (RestartingRandomWalker_get_igraph_walk override_params triangle 0 rng0)))
     \<le> max_path_length override_params \<and>
   1 \<le> length (fst (BiasedRandomWalker_get_igraph_walk override_params triangle 0 rng0)) \<and>
   int (length (fst (BiasedRandomWalker_get_igraph_walk override_params triangle 0 rng0)))
     \<le> walk_length_of override_params 0 \<and>
   2 \<le> max_path_length skip_params \<and> check skip_params 0 \<and>
   BiasedRandomWalker_get_igraph_walk skip_params triangle 0 rng0 = ([], None, rng0)"
proof -
  have h: "1 \<le> max_path_length override_params" "2 \<le> max_path_length override_params"
    "\<not> check override_params 0" "2 \<le> walk_length_of override_params 0"
    by (simp_all add: override_params_def default_params_def check_def walk_length_of_def)
  have k: "2 \<le> max_path_length skip_params" "check skip_params 0"
    by (simp_all add: skip_params_def default_params_def check_def)
  from C8_walk_length_bounds [of override_params triangle 0 rng0]
    C8_walk_length_bounds [of skip_params triangle 0 rng0] h k
  show ?thesis by blast
qed

text \<open>
  C8 as stated fails: vertex A has the override \<open>walk_length = 2\<close>, so its effective walk
  length is 2, and the uniform walker started there emits 5 vertices, the global
  \<open>max_path_length\<close>.
\<close>

theorem C8_uniform_walker_ignores_override:
  "walk_length_of override_params 0 = 2 \<and>
   length (fst (StandardRandomWalker_get_igraph_walk override_params triangle 0 rng0)) = 5"
  by code_simp

section \<open>Rejected and accepted path lengths\<close>

text \<open>
  C7. The second-order walker raises ValueError (the spec's InvalidParameter) before it
  yields anything whenever \<open>max_path_length < 2\<close>, whatever the graph, the vertex and the
  random source; the uniform walker with \<open>max_path_length = 1\<close> yields the start vertex's
  label and ends normally, a walk of length exactly 1.
\<close>

theorem C7_path_length_one:
  "(max_path_length ps < 2 \<longrightarrow>
      BiasedRandomWalker_get_igraph_walk ps g vertex r = ([], Some ValueError, r)) \<and>
   (max_path_length ps = 1 \<longrightarrow>
      StandardRandomWalker_get_igraph_walk ps g vertex r = ([v_label g vertex], None, r))"
  by (simp add: BiasedRandomWalker_get_igraph_walk_def StandardRandomWalker_get_igraph_walk_def
      standard_loop.simps [of ps g vertex 1 r])

theorem C7_path_length_one_witness:
  "max_path_length short_params < 2 \<and>
   BiasedRandomWalker_get_igraph_walk short_params triangle 0 rng0 = ([], Some ValueError, rng0) \<and>
   max_path_length short_params = 1 \<and>
   StandardRandomWalker_get_igraph_walk short_params triangle 0 rng0 = ([''A''], None, rng0)"
  using C7_path_length_one [of short_params triangle 0 rng0]
  by (simp add: short_params_def default_params_def triangle_def abc_def)

section \<open>The restarting walker\<close>

lemma restarting_loop_always_restarts:
  "restart_probability ps \<le> 0 \<Longrightarrow>
   fst (restarting_loop ps g v t pl r out) =
     out @ replicate (nat (max_path_length ps - pl)) (v_label g v)"
proof (induction ps g v t pl r out rule: restarting_loop.induct)
  case (1 ps g vertex tail path_length r out)
  note unroll = restarting_loop.simps [of ps g vertex tail path_length r out]
  have "(0::rat) \<le> frac (py_draws r (py_pos r))" by simp
  with "1.prems" have draw: "restart_probability ps \<le> fst (random_random r)"
    unfolding random_random_def fst_conv by (rule order_trans)
  show ?case
  proof (cases "path_length < max_path_length ps")
    case False
    then show ?thesis by (simp add: unroll)
  next
    case True
    then have c: "path_length < max_path_length ps \<and> neighborhood_size g tail \<noteq> 0"
      by (simp add: neighborhood_size_pos)
    have "nat (max_path_length ps - path_length)
          = Suc (nat (max_path_length ps - (path_length + 1)))"
      using True by simp
    with "1.IH"(1) [OF c draw "1.prems"] c draw show ?thesis
      by (simp add: unroll replicate_app_Cons_same)
  qed
qed

text \<open>
  C2 fails on the code. With \<open>restart_probability = 0\<close> (the default) the claim has the
  walker never restart. The code restarts when \<open>restart_probability <= random.random()\<close>,
  which every draw satisfies: in the triangle, for every random source, the walk of
  \<open>max_path_length = 4\<close> from A is A four times.
\<close>

theorem C2_restart_inverted:
  "\<forall>r. fst (RestartingRandomWalker_get_igraph_walk (default_params\<lparr>max_path_length := 4\<rparr>)
            triangle 0 r)
        = [''A'', ''A'', ''A'', ''A'']"
  by (simp add: RestartingRandomWalker_get_igraph_walk_def restarting_loop_always_restarts
      default_params_def triangle_def abc_def numeral_eq_Suc)

section \<open>Isolated vertices\<close>

text \<open>
  C3 fails on the code, with the default parameters. On the graph of one vertex and no
  edge, as \<open>Node2VecModel\<close> leaves it, the second-order walker yields the vertex and then
  raises KeyError (no vertex ever got the attribute \<open>first_travel_key\<close>). On the graph
  with an edge A-B and an isolated vertex C it yields C and then raises ValueError
  (\<open>np.random.choice\<close> of an empty list). The uniform walker on the one-vertex graph
  yields the label and then raises IndexError (\<open>neighborhood_size\<close> counts the vertex
  itself, so the loop is entered and \<open>random.choice\<close> gets an empty list).
\<close>

theorem C3_isolated_vertex_raises:
  "(case Node2VecModel_init lonely default_params of
      Inl err \<Rightarrow> False
    | Inr g \<Rightarrow>
        fst (BiasedRandomWalker_get_igraph_walk default_params g 0 rng0) = [0] \<and>
        fst (snd (BiasedRandomWalker_get_igraph_walk default_params g 0 rng0)) = Some KeyError) \<and>
   (case Node2VecModel_init edge_and_lonely default_params of
      Inl err \<Rightarrow> False
    | Inr g \<Rightarrow>
        fst (BiasedRandomWalker_get_igraph_walk default_params g 2 rng0) = [2] \<and>
        fst (snd (BiasedRandomWalker_get_igraph_walk default_params g 2 rng0)) = Some ValueError) \<and>
   fst (StandardRandomWalker_get_igraph_walk default_params lonely 0 rng0) = [''A''] \<and>
   fst (snd (StandardRandomWalker_get_igraph_walk default_params lonely 0 rng0)) = Some IndexError"
  by code_simp

section \<open>Loops, neighbours and weights\<close>

lemma for_loop_append:
  "for_loop f (xs @ ys) s = (case for_loop f xs s of Inl e \<Rightarrow> Inl e | Inr s' \<Rightarrow> for_loop f ys s')"
  by (induction xs arbitrary: s) (auto split: sum.splits)

lemma for_loop_map:
  "for_loop f (map h xs) s = for_loop (\<lambda>x. f (h x)) xs s"
  by (induction xs arbitrary: s) (auto split: sum.splits)

lemma for_loop_invariant:
  assumes run: "for_loop f xs s = Inr s'" and start: "I s"
    and step: "\<And>x t t'. x \<in> set xs \<Longrightarrow> I t \<Longrightarrow> f x t = Inr t' \<Longrightarrow> I t'"
  shows "I s'"
  using run start step
proof (induction xs arbitrary: s)
  case Nil
  from Nil.prems(1,2) show ?case by simp
next
  case (Cons x xs)
  from Cons.prems(1) obtain t where t: "f x s = Inr t" "for_loop f xs t = Inr s'"
    by (cases "f x s") simp_all
  have "x \<in> set (x # xs)" by simp
  from Cons.prems(3) [OF this Cons.prems(2) t(1)] have it: "I t" .
  have rest: "\<And>y u u'. y \<in> set xs \<Longrightarrow> I u \<Longrightarrow> f y u = Inr u' \<Longrightarrow> I u'"
  proof -
    fix y u u' assume "y \<in> set xs" and u: "I u" "f y u = Inr u'"
    then have "y \<in> set (x # xs)" by simp
    from Cons.prems(3) [OF this u] show "I u'" .
  qed
  from Cons.IH [OF t(2) it rest] show ?case .
qed

lemma for_loop_succeeds:
  assumes start: "I s"
    and step: "\<And>x t. x \<in> set xs \<Longrightarrow> I t \<Longrightarrow> \<exists>t'. f x t = Inr t' \<and> I t'"
  shows "\<exists>s'. for_loop f xs s = Inr s' \<and> I s'"
  using start step
proof (induction xs arbitrary: s)
  case Nil
  from Nil.prems(1) show ?case by simp
next
  case (Cons x xs)
  have "x \<in> set (x # xs)" by simp
  from Cons.prems(2) [OF this Cons.prems(1)] obtain t where t: "f x s = Inr t" "I t" by blast
  have rest: "\<And>y u. y \<in> set xs \<Longrightarrow> I u \<Longrightarrow> \<exists>u'. f y u = Inr u' \<and> I u'"
  proof -
    fix y u assume "y \<in> set xs" and u: "I u"
    then have "y \<in> set (x # xs)" by simp
    from Cons.prems(2) [OF this u] show "\<exists>u'. f y u = Inr u' \<and> I u'" .
  qed
  from Cons.IH [OF t(2) rest] obtain s' where "for_loop f xs t = Inr s'" "I s'" by blast
  with t(1) show ?case by simp
qed

lemma for_loop_established:
  assumes run: "for_loop f xs s = Inr s'" and start: "I s"
    and step: "\<And>x t t'. x \<in> set xs \<Longrightarrow> I t \<Longrightarrow> f x t = Inr t' \<Longrightarrow> I t' \<and> Q x t'"
    and keep: "\<And>x y t t'. x \<in> set xs \<Longrightarrow> I t \<Longrightarrow> Q y t \<Longrightarrow> f x t = Inr t' \<Longrightarrow> Q y t'"
  shows "(\<forall>y. Q y s \<longrightarrow> Q y s') \<and> (\<forall>x \<in> set xs. Q x s')"
  using run start step keep
proof (induction xs arbitrary: s)
  case Nil
  from Nil.prems(1) show ?case by simp
next
  case (Cons x xs)
  from Cons.prems(1) obtain t where t: "f x s = Inr t" "for_loop f xs t = Inr s'"
    by (cases "f x s") simp_all
  have mem: "x \<in> set (x # xs)" by simp
  note first = Cons.prems(3) [OF mem Cons.prems(2) t(1)]
  from first have it: "I t" by (rule conjunct1)
  from first have qt: "Q x t" by (rule conjunct2)
  have keep_first: "Q y t" if "Q y s" for y
    using Cons.prems(4) [OF mem Cons.prems(2) that t(1)] .
  have step': "\<And>y u u'. y \<in> set xs \<Longrightarrow> I u \<Longrightarrow> f y u = Inr u' \<Longrightarrow> I u' \<and> Q y u'"
  proof -
    fix y u u' assume "y \<in> set xs" and u: "I u" "f y u = Inr u'"
    then have "y \<in> set (x # xs)" by simp
    from Cons.prems(3) [OF this u] show "I u' \<and> Q y u'" .
  qed
  have keep': "\<And>y z u u'. y \<in> set xs \<Longrightarrow> I u \<Longrightarrow> Q z u \<Longrightarrow> f y u = Inr u' \<Longrightarrow> Q z u'"
  proof -
    fix y z u u' assume "y \<in> set xs" and u: "I u" "Q z u" "f y u = Inr u'"
    then have "y \<in> set (x # xs)" by simp
    from Cons.prems(4) [OF this u] show "Q z u'" .
  qed
  have ih: "(\<forall>y. Q y t \<longrightarrow> Q y s') \<and> (\<forall>x \<in> set xs. Q x s')"
  proof (rule Cons.IH [OF t(2) it])
    fix y u u' assume "y \<in> set xs" "I u" "f y u = Inr u'"
    then show "I u' \<and> Q y u'" by (rule step')
  next
    fix y z u u' assume "y \<in> set xs" "I u" "Q z u" "f y u = Inr u'"
    then show "Q z u'" by (rule keep')
  qed
  have later: "Q y s'" if "Q y t" for y
    using ih [THEN conjunct1, rule_format, OF that] .
  have rest: "Q y s'" if "y \<in> set xs" for y
    using ih [THEN conjunct2, rule_format, OF that] .
  show ?case
  proof (intro conjI allI impI ballI)
    fix y assume "Q y s"
    then have "Q y t" by (rule keep_first)
    then show "Q y s'" by (rule later)
  next
    fix y assume "y \<in> set (x # xs)"
    then have "y = x \<or> y \<in> set xs" by simp
    then show "Q y s'"
    proof
      assume "y = x"
      with later [OF qt] show ?thesis by simp
    next
      assume "y \<in> set xs"
      then show ?thesis by (rule rest)
    qed
  qed
qed



lemma neighbors_set:
  "set (neighbors g v) =
     {e_target e | e. e \<in> set (g_es g) \<and> e_source e = v} \<union>
     {e_source e | e. e \<in> set (g_es g) \<and> e_target e = v}"
  by (auto simp add: neighbors_def split: if_splits)

lemma neighbors_sym: "u \<in> set (neighbors g v) \<longleftrightarrow> v \<in> set (neighbors g u)"
  by (auto simp add: neighbors_set)

lemma select_between_neighbor:
  "x \<in> set (neighbors g v) \<Longrightarrow> select_between g v x \<noteq> []"
  by (auto simp add: neighbors_set select_between_def filter_empty_conv)

lemma select_between_subset: "set (select_between g v x) \<subseteq> set (g_es g)"
  by (auto simp add: select_between_def)

lemma edge_exists_select: "edge_exists g u x \<longleftrightarrow> 0 < length (select_source_target g u x)"
  by (auto simp add: edge_exists_def select_source_target_def list_ex_iff filter_empty_conv)

lemma weights_step_ok:
  assumes "x \<in> set (neighbors g v)"
    and "get_p ps (v_name g v) \<noteq> 0" and "get_q ps (v_name g v) \<noteq> 0"
  shows "weights_step ps g u v done x acc =
           Inr (fst acc @ [second_order_weight ps g u v x],
                if v_name g v \<notin> done then snd acc @ [edgeWeight g v x] else snd acc)"
proof -
  from select_between_neighbor [OF assms(1)] obtain e es where
    e: "select_between g v x = e # es" by (cases "select_between g v x") auto
  have ew: "edgeWeight g v x = e_weight e" by (simp add: edgeWeight_def e)
  have step: "weights_step ps g u v done x acc =
      (case compute_prob g u x (get_p ps (v_name g v)) (get_q ps (v_name g v)) (e_weight e) of
         Inl err \<Rightarrow> Inl err
       | Inr w \<Rightarrow> Inr (fst acc @ [w],
           if v_name g v \<notin> done then snd acc @ [e_weight e] else snd acc))"
    by (simp add: weights_step_def e)
  have "compute_prob g u x (get_p ps (v_name g v)) (get_q ps (v_name g v)) (e_weight e) =
          Inr (second_order_weight ps g u v x)"
    using assms(2,3) unfolding ew [symmetric]
    by (simp add: compute_prob_def py_div_def second_order_weight_def edge_exists_select)
  with step ew show ?thesis by simp
qed

lemma weights_loop_ok:
  assumes "set xs \<subseteq> set (neighbors g v)"
    and "get_p ps (v_name g v) \<noteq> 0" and "get_q ps (v_name g v) \<noteq> 0"
  shows "for_loop (weights_step ps g u v done) xs acc =
           Inr (fst acc @ map (second_order_weight ps g u v) xs,
                if v_name g v \<notin> done then snd acc @ map (edgeWeight g v) xs else snd acc)"
  using assms(1)
proof (induction xs arbitrary: acc)
  case Nil
  then show ?case by simp
next
  case (Cons x xs)
  then have x: "x \<in> set (neighbors g v)" and xs: "set xs \<subseteq> set (neighbors g v)" by auto
  have "for_loop (weights_step ps g u v done) (x # xs) acc =
        for_loop (weights_step ps g u v done) xs
          (fst acc @ [second_order_weight ps g u v x],
           if v_name g v \<notin> done then snd acc @ [edgeWeight g v x] else snd acc)"
    by (simp add: weights_step_ok [OF x assms(2,3)])
  also have "\<dots> = Inr (fst acc @ map (second_order_weight ps g u v) (x # xs),
                if v_name g v \<notin> done then snd acc @ map (edgeWeight g v) (x # xs) else snd acc)"
    by (simp add: Cons.IH [OF xs])
  finally show ?case .
qed

lemma compute_unnormalized_weights_ok:
  assumes "get_p ps (v_name g v) \<noteq> 0" and "get_q ps (v_name g v) \<noteq> 0"
  shows "compute_unnormalized_weights ps g u v done =
           Inr (map (second_order_weight ps g u v) (neighbors g v),
                if v_name g v \<notin> done then map (edgeWeight g v) (neighbors g v) else [])"
proof -
  have "set (neighbors g v) \<subseteq> set (neighbors g v)" by simp
  from weights_loop_ok [OF this assms]
  show ?thesis unfolding compute_unnormalized_weights_def by simp
qed


lemma frame_neighbors: "frame g = frame h \<Longrightarrow> neighbors g = neighbors h"
  by (rule ext) (simp add: frame_def neighbors_def)

lemma frame_compute_unnormalized_weights:
  assumes "frame g = frame h"
  shows "compute_unnormalized_weights ps g u v done = compute_unnormalized_weights ps h u v done"
proof -
  from assms have es: "g_es g = g_es h" and dir: "g_directed g = g_directed h"
    and nm: "v_name g = v_name h" by (simp_all add: frame_def)
  have sb: "select_between g = select_between h"
    by (intro ext) (simp add: select_between_def es)
  have st: "select_source_target g = select_source_target h"
    by (intro ext) (simp add: select_source_target_def es dir)
  have cp: "compute_prob g = compute_prob h"
    by (intro ext) (simp add: compute_prob_def st)
  have "weights_step ps g u v done = weights_step ps h u v done"
    unfolding weights_step_def sb cp nm ..
  with frame_neighbors [OF assms] show ?thesis
    by (simp add: compute_unnormalized_weights_def)
qed

lemma sum_list_divide: "sum_list (map (\<lambda>w. w / s) ws) = sum_list ws / (s::rat)"
  by (induction ws) (simp_all add: add_divide_distrib)

lemma sum_list_positive: "ws \<noteq> [] \<Longrightarrow> list_all (\<lambda>w. 0 < w) ws \<Longrightarrow> 0 < sum_list (ws::rat list)"
proof (induction ws)
  case Nil
  then show ?case by simp
next
  case (Cons a ws)
  show ?case
  proof (cases "ws = []")
    case True
    with Cons.prems show ?thesis by simp
  next
    case False
    with Cons have "0 < sum_list ws" and "0 < a" by simp_all
    then show ?thesis by (simp add: add_pos_pos)
  qed
qed

lemma ints_sum:
  "list_all (\<lambda>w. case w of PyInt i \<Rightarrow> P i | PyFloat x \<Rightarrow> False) ws \<Longrightarrow>
   sum_list (map num_value ws) = of_int (sum_list (ints ws))"
  by (induction ws) (auto simp add: ints_def split: number.splits)

lemma wrap_int64_id: "0 \<le> i \<Longrightarrow> i < 2 ^ 63 \<Longrightarrow> wrap_int64 i = i"
  by (simp add: wrap_int64_def)

lemma wrap_uint64_id: "0 \<le> i \<Longrightarrow> i < 2 ^ 63 \<Longrightarrow> wrap_uint64 i = i"
  by (simp add: wrap_uint64_def)

lemma np_sum_exact:
  assumes "0 \<le> sum_list (map num_value ws)" and "sum_list (map num_value ws) < 2 ^ 63"
  shows "np_sum ws = sum_list (map num_value ws)"
proof (cases "np_dtype ws")
  case Int64
  then have "list_all (\<lambda>w. case w of PyInt i \<Rightarrow> - (2 ^ 63) \<le> i \<and> i < 2 ^ 63 | PyFloat x \<Rightarrow> False) ws"
    by (simp add: np_dtype_def split: if_splits)
  from ints_sum [OF this] have s: "sum_list (map num_value ws) = of_int (sum_list (ints ws))" .
  from assms have "0 \<le> sum_list (ints ws)" and "sum_list (ints ws) < 2 ^ 63"
    unfolding s by simp_all
  then have "wrap_int64 (sum_list (ints ws)) = sum_list (ints ws)" by (rule wrap_int64_id)
  with Int64 s show ?thesis by (simp add: np_sum_def)
next
  case UInt64
  then have "list_all (\<lambda>w. case w of PyInt i \<Rightarrow> 0 \<le> i \<and> i < 2 ^ 64 | PyFloat x \<Rightarrow> False) ws"
    by (simp add: np_dtype_def split: if_splits)
  from ints_sum [OF this] have s: "sum_list (map num_value ws) = of_int (sum_list (ints ws))" .
  from assms have "0 \<le> sum_list (ints ws)" and "sum_list (ints ws) < 2 ^ 63"
    unfolding s by simp_all
  then have "wrap_uint64 (sum_list (ints ws)) = sum_list (ints ws)" by (rule wrap_uint64_id)
  with UInt64 s show ?thesis by (simp add: np_sum_def)
next
  case Float64
  then show ?thesis by (simp add: np_sum_def)
qed

lemma np_sum_float:
  assumes "PyFloat x \<in> set ws"
  shows "np_sum ws = sum_list (map num_value ws)"
proof -
  have "\<not> list_all (\<lambda>w. case w of PyInt i \<Rightarrow> P i | PyFloat x \<Rightarrow> False) ws" for P
    using assms by (auto simp add: list_all_iff intro!: bexI [of _ "PyFloat x"])
  then have "np_dtype ws = Float64" by (simp add: np_dtype_def)
  then show ?thesis by (simp add: np_sum_def)
qed

lemma np_normalize_distribution:
  assumes "ws \<noteq> []" and "list_all (\<lambda>w. 0 < num_value w) ws"
    and "np_sum ws = sum_list (map num_value ws)"
  shows "is_distribution (length ws) (np_normalize ws)"
proof -
  let ?s = "sum_list (map num_value ws)"
  have all: "list_all (\<lambda>w. 0 < w) (map num_value ws)"
    using assms(2) by (simp add: list_all_iff)
  from assms(1) have "map num_value ws \<noteq> []" by simp
  from sum_list_positive [OF this all] have pos: "0 < ?s" .
  have same: "map (\<lambda>w. num_value w / ?s) ws = map (\<lambda>w. w / ?s) (map num_value ws)"
    by (simp add: comp_def)
  have one: "sum_list (map (\<lambda>w. num_value w / ?s) ws) = 1"
    unfolding same sum_list_divide using pos by simp
  have each: "list_all (\<lambda>x. 0 < x) (map (\<lambda>w. num_value w / ?s) ws)"
    using assms(2) pos by (simp add: list_all_iff)
  from pos assms(1) one each show ?thesis
    by (simp add: is_distribution_def np_normalize_def assms(3))
qed

lemma edgeWeight_positive:
  assumes "positive_weights g" and "x \<in> set (neighbors g v)"
  shows "0 < num_value (edgeWeight g v x)"
proof -
  from select_between_neighbor [OF assms(2)] obtain e es where
    e: "select_between g v x = e # es" by (cases "select_between g v x") auto
  then have "e \<in> set (select_between g v x)" by simp
  with select_between_subset have "e \<in> set (g_es g)" by blast
  with assms(1) have "0 < num_value (e_weight e)" by (simp add: positive_weights_def list_all_iff)
  with e show ?thesis by (simp add: edgeWeight_def)
qed

lemma second_order_weight_positive:
  assumes "positive_weights g" and "x \<in> set (neighbors g v)"
    and "0 < get_p ps (v_name g v)" and "0 < get_q ps (v_name g v)"
  shows "0 < num_value (second_order_weight ps g u v x)"
  using edgeWeight_positive [OF assms(1,2)] assms(3,4)
  by (auto simp add: second_order_weight_def)

lemma second_order_weights_float:
  assumes "u \<in> set (neighbors g v)"
  shows "\<exists>x. PyFloat x \<in> set (map (second_order_weight ps g u v) (neighbors g v))"
proof -
  have "second_order_weight ps g u v u =
          PyFloat (num_value (edgeWeight g v u) / get_p ps (v_name g v))"
    by (simp add: second_order_weight_def)
  moreover from assms
  have "second_order_weight ps g u v u \<in> set (map (second_order_weight ps g u v) (neighbors g v))"
    by simp
  ultimately show ?thesis by metis
qed

lemma neighbors_valid:
  assumes "valid_edges g" and "x \<in> set (neighbors g v)"
  shows "x < g_vcount g"
  using assms by (auto simp add: valid_edges_def list_all_iff neighbors_set)

lemma vertex_pairs_set:
  "set (vertex_pairs g) = {(u, v). u < g_vcount g \<and> v \<in> set (neighbors g u)}"
  by (auto simp add: vertex_pairs_def vs_def)

section \<open>The unnormalized second-order weights\<close>



section \<open>The precomputation\<close>

lemma init_probabilities_Nil: "init_probabilities [] g = g"
  by (simp add: init_probabilities_def)

lemma init_probabilities_Cons:
  "init_probabilities (x # xs) g =
     init_probabilities xs (g\<lparr>v_probabilities := set_vattr (v_probabilities g) x Map.empty\<rparr>)"
  by (simp add: init_probabilities_def)

lemma init_probabilities_frame:
  "frame (init_probabilities xs g) = frame g \<and>
   v_first_travel_key (init_probabilities xs g) = v_first_travel_key g \<and>
   v_label (init_probabilities xs g) = v_label g"
proof (induction xs arbitrary: g)
  case Nil
  show ?case by (simp add: init_probabilities_Nil)
next
  case (Cons x xs)
  from Cons.IH [of "g\<lparr>v_probabilities := set_vattr (v_probabilities g) x Map.empty\<rparr>"]
  show ?case by (simp add: init_probabilities_Cons frame_def)
qed

lemma has_dict_set_same:
  "has_dict (g\<lparr>v_probabilities := set_vattr (v_probabilities g) v d\<rparr>) v d"
  by (simp add: has_dict_def set_vattr_def)

lemma has_dict_set_other:
  "u \<noteq> v \<Longrightarrow> has_dict g u d \<Longrightarrow>
   has_dict (g\<lparr>v_probabilities := set_vattr (v_probabilities g) v d'\<rparr>) u d"
  by (auto simp add: has_dict_def set_vattr_def)

lemma init_probabilities_preserves:
  "has_dict g v Map.empty \<Longrightarrow> has_dict (init_probabilities xs g) v Map.empty"
proof (induction xs arbitrary: g)
  case Nil
  then show ?case by (simp add: init_probabilities_Nil)
next
  case (Cons x xs)
  have "has_dict (g\<lparr>v_probabilities := set_vattr (v_probabilities g) x Map.empty\<rparr>) v Map.empty"
  proof (cases "v = x")
    case True
    then show ?thesis by (simp add: has_dict_set_same)
  next
    case False
    with Cons.prems show ?thesis by (simp add: has_dict_set_other)
  qed
  from Cons.IH [OF this] show ?case by (simp add: init_probabilities_Cons)
qed

lemma init_probabilities_sets:
  "v \<in> set xs \<Longrightarrow> has_dict (init_probabilities xs g) v Map.empty"
proof (induction xs arbitrary: g)
  case Nil
  then show ?case by simp
next
  case (Cons x xs)
  show ?case
  proof (cases "v = x")
    case True
    have "has_dict (g\<lparr>v_probabilities := set_vattr (v_probabilities g) x Map.empty\<rparr>) v Map.empty"
      using True by (simp add: has_dict_set_same)
    from init_probabilities_preserves [OF this] show ?thesis
      by (simp add: init_probabilities_Cons)
  next
    case False
    with Cons.prems have "v \<in> set xs" by simp
    from Cons.IH [OF this] show ?thesis by (simp add: init_probabilities_Cons)
  qed
qed

lemma precompute_step_frame:
  assumes "precompute_step ps src cur st = Inr st'"
  shows "frame (fst st') = frame (fst st)"
  using assms
  by (auto simp add: precompute_step_def Let_def frame_def
      split: sum.splits option.splits prod.splits if_splits)

lemma has_dict_unique: "has_dict g v d \<Longrightarrow> has_dict g v d' \<Longrightarrow> d = d'"
  by (auto simp add: has_dict_def)

lemma precompute_step_result:
  assumes p: "get_p ps (v_name g cur) \<noteq> 0" and q: "get_q ps (v_name g cur) \<noteq> 0"
    and d: "has_dict g cur dct"
  shows "\<exists>g'. precompute_step ps src cur (g, done) =
            Inr (g', if v_name g cur \<notin> done then insert (v_name g cur) done else done) \<and>
          frame g' = frame g \<and> v_label g' = v_label g \<and>
          has_dict g' cur
            (dct(v_name g src \<mapsto>
               np_normalize (map (second_order_weight ps g src cur) (neighbors g cur)))) \<and>
          (\<forall>u x. u \<noteq> cur \<longrightarrow> has_dict g' u x = has_dict g u x) \<and>
          (\<forall>u. stored_first_travel g' u =
                 (if u = cur \<and> v_name g cur \<notin> done
                  then Some (np_normalize (map (edgeWeight g cur) (neighbors g cur)))
                  else stored_first_travel g u))"
proof -
  from d obtain pm where pm: "v_probabilities g = Some pm" "pm cur = Some dct"
    by (auto simp add: has_dict_def)
  show ?thesis
    using pm
    by (auto simp add: precompute_step_def compute_unnormalized_weights_ok [OF p q] has_dict_def
        frame_def Let_def stored_first_travel_def set_vattr_def split: option.splits)
qed

lemma nested_loops_flat:
  assumes "frame (fst st) = frame g0"
  shows "for_loop (\<lambda>src st. for_loop (precompute_step ps src) (neighbors (fst st) src) st) xs st =
         for_loop (pair_step ps) (concat (map (\<lambda>src. map (Pair src) (neighbors g0 src)) xs)) st"
  using assms
proof (induction xs arbitrary: st)
  case Nil
  show ?case by simp
next
  case (Cons x xs)
  have inner: "for_loop (pair_step ps) (map (Pair x) (neighbors g0 x)) st =
               for_loop (precompute_step ps x) (neighbors (fst st) x) st"
    by (simp add: for_loop_map pair_step_def frame_neighbors [OF Cons.prems])
  show ?case
  proof (cases "for_loop (precompute_step ps x) (neighbors (fst st) x) st")
    case (Inl e)
    with inner show ?thesis by (simp add: for_loop_append)
  next
    case (Inr st1)
    have "frame (fst st1) = frame g0"
    proof (rule for_loop_invariant [OF Inr, where I = "\<lambda>s. frame (fst s) = frame g0"])
      show "frame (fst st) = frame g0" by (rule Cons.prems)
    next
      fix y t t' assume "frame (fst t) = frame g0" and "precompute_step ps x y t = Inr t'"
      then show "frame (fst t') = frame g0" by (simp add: precompute_step_frame)
    qed
    from Cons.IH [OF this] Inr inner show ?thesis by (simp add: for_loop_append)
  qed
qed

lemma precompute_probs_flat:
  "precompute_probs ps g =
     (case for_loop (pair_step ps) (vertex_pairs g) (init_probabilities (vs g) g, {}) of
        Inl err \<Rightarrow> Inl err
      | Inr st \<Rightarrow> Inr (fst st))"
proof -
  let ?g0 = "init_probabilities (vs g) g"
  have f: "frame ?g0 = frame g" by (simp add: init_probabilities_frame)
  then have v: "vs ?g0 = vs g" by (simp add: vs_def frame_def)
  have "frame (fst (?g0, {}::string set)) = frame g" using f by simp
  from nested_loops_flat [OF this, of ps "vs g"] v show ?thesis
    by (simp add: precompute_probs_def Let_def vertex_pairs_def init_probabilities_def)
qed



lemma frame_weights:
  assumes "frame g = frame h"
  shows "edgeWeight g = edgeWeight h" and "second_order_weight ps g = second_order_weight ps h"
proof -
  from assms have es: "g_es g = g_es h" and dir: "g_directed g = g_directed h"
    and nm: "v_name g = v_name h" by (simp_all add: frame_def)
  have sb: "select_between g = select_between h"
    by (intro ext) (simp add: select_between_def es)
  show ew: "edgeWeight g = edgeWeight h"
    by (intro ext) (simp add: edgeWeight_def sb)
  have ee: "edge_exists g = edge_exists h"
    by (intro ext) (simp add: edge_exists_def es dir)
  show "second_order_weight ps g = second_order_weight ps h"
    by (intro ext) (simp add: second_order_weight_def ew ee nm)
qed

lemma distinct_names_inj:
  assumes "distinct_names g" and "u < g_vcount g" and "v < g_vcount g"
    and "v_name g u = v_name g v"
  shows "u = v"
proof -
  from assms(1) have "inj_on (v_name g) (set (vs g))"
    by (simp add: distinct_names_def distinct_map)
  moreover from assms(2,3) have "u \<in> set (vs g)" "v \<in> set (vs g)" by (simp_all add: vs_def)
  ultimately show ?thesis using assms(4) by (auto dest: inj_onD)
qed












lemma precompute_inv_step:
  assumes inv: "precompute_inv good g0 st" and valid: "valid_edges g0"
    and nz: "nonzero_parameters ps g0"
    and names: "distinct_names g0" and pr: "pr \<in> set (vertex_pairs g0)"
    and second: "good (snd pr) (np_normalize
        (map (second_order_weight ps g0 (fst pr) (snd pr)) (neighbors g0 (snd pr))))"
    and first: "good (snd pr) (np_normalize (map (edgeWeight g0 (snd pr)) (neighbors g0 (snd pr))))"
  shows "\<exists>st'. pair_step ps pr st = Inr st' \<and> precompute_inv good g0 st' \<and> visited g0 pr st' \<and>
           (\<forall>y. visited g0 y st \<longrightarrow> visited g0 y st')"
proof -
  define src cur g dn where "src = fst pr" and "cur = snd pr" and "g = fst st" and "dn = snd st"
  from pr have src: "src < g_vcount g0" and nb: "cur \<in> set (neighbors g0 src)"
    by (auto simp add: vertex_pairs_set src_def cur_def)
  from neighbors_valid [OF valid nb] have cur: "cur < g_vcount g0" .
  from inv have fr: "frame g = frame g0" by (simp add: precompute_inv_def g_def)
  then have nm: "v_name g = v_name g0" by (simp add: frame_def)
  note nbs = frame_neighbors [OF fr]
  note ws = frame_weights [OF fr]
  from nz cur have p0: "get_p ps (v_name g cur) \<noteq> 0" and q0: "get_q ps (v_name g cur) \<noteq> 0"
    by (simp_all add: nonzero_parameters_def list_all_iff vs_def nm)
  from inv cur obtain dct where dct: "has_dict g cur dct"
    and old: "\<forall>nm a. dct nm = Some a \<longrightarrow> good cur a"
    unfolding precompute_inv_def g_def by blast
  define A where "A = np_normalize (map (second_order_weight ps g0 src cur) (neighbors g0 cur))"
  define B where "B = np_normalize (map (edgeWeight g0 cur) (neighbors g0 cur))"
  define dn' where "dn' = (if v_name g0 cur \<notin> dn then insert (v_name g0 cur) dn else dn)"
  from second have A: "good cur A" by (simp add: A_def src_def cur_def)
  from first have B: "good cur B" by (simp add: B_def cur_def)
  from precompute_step_result [OF p0 q0 dct, of src dn]
  obtain g' where step: "precompute_step ps src cur (g, dn) = Inr (g', dn')"
    and fr': "frame g' = frame g"
    and here: "has_dict g' cur (dct(v_name g0 src \<mapsto> A))"
    and others: "\<And>u x. u \<noteq> cur \<Longrightarrow> has_dict g' u x = has_dict g u x"
    and ft: "\<And>u. stored_first_travel g' u =
                 (if u = cur \<and> v_name g0 cur \<notin> dn then Some B else stored_first_travel g u)"
    unfolding A_def B_def dn'_def nm nbs ws by blast
  from step have run: "pair_step ps pr st = Inr (g', dn')"
    by (simp add: pair_step_def src_def cur_def g_def dn_def)
  have i1: "frame g' = frame g0" using fr fr' by simp
  have i2: "\<exists>d. has_dict g' v d \<and> (\<forall>nm a. d nm = Some a \<longrightarrow> good v a)"
    if v: "v < g_vcount g0" for v
  proof (cases "v = cur")
    case True
    have "\<forall>nm a. (dct(v_name g0 src \<mapsto> A)) nm = Some a \<longrightarrow> good cur a"
    proof (intro allI impI)
      fix nm a assume a: "(dct(v_name g0 src \<mapsto> A)) nm = Some a"
      show "good cur a"
      proof (cases "nm = v_name g0 src")
        case True
        with a have "a = A" by simp
        with A show ?thesis by simp
      next
        case False
        with a have "dct nm = Some a" by simp
        with old show ?thesis by blast
      qed
    qed
    with here True show ?thesis by blast
  next
    case False
    from inv v obtain d where "has_dict g v d" and "\<forall>nm a. d nm = Some a \<longrightarrow> good v a"
      unfolding precompute_inv_def g_def by blast
    with others [OF False] show ?thesis by blast
  qed
  have i3: "\<exists>a. stored_first_travel g' v = Some a \<and> good v a"
    if v: "v < g_vcount g0" and mem: "v_name g0 v \<in> dn'" for v
  proof (cases "v = cur \<and> v_name g0 cur \<notin> dn")
    case True
    with ft [of v] have "stored_first_travel g' v = Some B" by simp
    with True B show ?thesis by blast
  next
    case False
    have "v_name g0 v \<in> dn"
    proof (rule ccontr)
      assume out: "v_name g0 v \<notin> dn"
      with mem have new: "v_name g0 cur \<notin> dn" and same: "v_name g0 v = v_name g0 cur"
        by (auto simp add: dn'_def split: if_splits)
      from distinct_names_inj [OF names v cur same] new False show False by simp
    qed
    with inv v obtain a where a: "stored_first_travel g v = Some a" and ga: "good v a"
      unfolding precompute_inv_def g_def dn_def by blast
    from ft [of v] False a have "stored_first_travel g' v = Some a" by auto
    with ga show ?thesis by blast
  qed
  have inv': "precompute_inv good g0 (g', dn')"
    unfolding precompute_inv_def using i1 i2 i3 by simp
  have vis: "visited g0 pr (g', dn')"
    unfolding visited_def using here
    by (auto simp add: dn'_def src_def cur_def)
  have keep: "visited g0 y (g', dn')" if was: "visited g0 y st" for y
  proof -
    from was have m: "v_name g0 (snd y) \<in> dn" by (simp add: visited_def dn_def)
    then have m': "v_name g0 (snd y) \<in> dn'" by (simp add: dn'_def)
    from was obtain d a where d: "has_dict g (snd y) d" "d (v_name g0 (fst y)) = Some a"
      by (auto simp add: visited_def g_def)
    have "\<exists>d a. has_dict g' (snd y) d \<and> d (v_name g0 (fst y)) = Some a"
    proof (cases "snd y = cur")
      case True
      with d(1) dct have "d = dct" by (auto dest: has_dict_unique)
      with d(2) have "\<exists>a. (dct(v_name g0 src \<mapsto> A)) (v_name g0 (fst y)) = Some a" by simp
      with here True show ?thesis by blast
    next
      case False
      with others d show ?thesis by blast
    qed
    with m' show ?thesis by (simp add: visited_def)
  qed
  from run inv' vis keep show ?thesis by blast
qed

lemma precompute_inv_init: "precompute_inv good g (init_probabilities (vs g) g, {})"
proof -
  have "\<exists>d. has_dict (init_probabilities (vs g) g) v d \<and> (\<forall>nm a. d nm = Some a \<longrightarrow> good v a)"
    if "v < g_vcount g" for v
  proof -
    from that have "v \<in> set (vs g)" by (simp add: vs_def)
    from init_probabilities_sets [OF this]
    have "has_dict (init_probabilities (vs g) g) v Map.empty" .
    moreover have "\<forall>nm a. Map.empty nm = Some a \<longrightarrow> good v a" by simp
    ultimately show ?thesis by blast
  qed
  then show ?thesis by (simp add: precompute_inv_def init_probabilities_frame)
qed

lemma stored_probabilities_has_dict:
  "has_dict g v d \<Longrightarrow> stored_probabilities g v nm = d nm"
  by (auto simp add: has_dict_def stored_probabilities_def)

lemma precompute_probs_stores:
  assumes valid: "valid_edges g" and nz: "nonzero_parameters ps g" and names: "distinct_names g"
    and second_good: "\<And>u v. u < g_vcount g \<Longrightarrow> v \<in> set (neighbors g u) \<Longrightarrow>
        good v (np_normalize (map (second_order_weight ps g u v) (neighbors g v)))"
    and first_good: "\<And>v. v < g_vcount g \<Longrightarrow> neighbors g v \<noteq> [] \<Longrightarrow>
        good v (np_normalize (map (edgeWeight g v) (neighbors g v)))"
  shows "\<exists>g'. precompute_probs ps g = Inr g' \<and> frame g' = frame g \<and> v_label g' = v_label g \<and>
           (\<forall>v < g_vcount g. \<exists>d. has_dict g' v d) \<and>
           (\<forall>v < g_vcount g. neighbors g v \<noteq> [] \<longrightarrow>
               (\<exists>a. stored_first_travel g' v = Some a \<and> good v a)) \<and>
           (\<forall>u < g_vcount g. \<forall>v \<in> set (neighbors g u).
               \<exists>a. stored_probabilities g' v (v_name g u) = Some a \<and> good v a)"
proof -
  let ?s = "(init_probabilities (vs g) g, {}::string set)"
  have step: "\<exists>st'. pair_step ps pr st = Inr st' \<and> precompute_inv good g st' \<and>
                 visited g pr st' \<and> (\<forall>y. visited g y st \<longrightarrow> visited g y st')"
    if inv: "precompute_inv good g st" and pr: "pr \<in> set (vertex_pairs g)" for st pr
  proof (rule precompute_inv_step [OF inv valid nz names pr])
    from pr have u: "fst pr < g_vcount g" and nb: "snd pr \<in> set (neighbors g (fst pr))"
      by (auto simp add: vertex_pairs_set)
    from second_good [OF u nb]
    show "good (snd pr) (np_normalize
        (map (second_order_weight ps g (fst pr) (snd pr)) (neighbors g (snd pr))))" .
    from nb have "fst pr \<in> set (neighbors g (snd pr))" by (simp add: neighbors_sym)
    then have ne: "neighbors g (snd pr) \<noteq> []" by auto
    from first_good [OF neighbors_valid [OF valid nb] ne]
    show "good (snd pr) (np_normalize (map (edgeWeight g (snd pr)) (neighbors g (snd pr))))" .
  qed
  have "\<exists>s'. for_loop (pair_step ps) (vertex_pairs g) ?s = Inr s' \<and> precompute_inv good g s'"
  proof (rule for_loop_succeeds [where I = "precompute_inv good g"])
    show "precompute_inv good g ?s" by (rule precompute_inv_init)
  next
    fix x t assume x: "x \<in> set (vertex_pairs g)" and t: "precompute_inv good g t"
    from step [OF t x] show "\<exists>t'. pair_step ps x t = Inr t' \<and> precompute_inv good g t'" by blast
  qed
  then obtain s' where run: "for_loop (pair_step ps) (vertex_pairs g) ?s = Inr s'"
    and inv: "precompute_inv good g s'" by blast
  have "(\<forall>y. visited g y ?s \<longrightarrow> visited g y s') \<and> (\<forall>x \<in> set (vertex_pairs g). visited g x s')"
  proof (rule for_loop_established [OF run, where I = "precompute_inv good g"])
    show "precompute_inv good g ?s" by (rule precompute_inv_init)
  next
    fix x t t'
    assume x: "x \<in> set (vertex_pairs g)" and t: "precompute_inv good g t"
      and r: "pair_step ps x t = Inr t'"
    from step [OF t x] r show "precompute_inv good g t' \<and> visited g x t'" by auto
  next
    fix x y t t'
    assume x: "x \<in> set (vertex_pairs g)" and t: "precompute_inv good g t"
      and y: "visited g y t" and r: "pair_step ps x t = Inr t'"
    from step [OF t x] r y show "visited g y t'" by (cases y) auto
  qed
  then have vis: "visited g (u, v) s'" if "u < g_vcount g" and "v \<in> set (neighbors g u)" for u v
    using that by (simp add: vertex_pairs_set)
  have res: "precompute_probs ps g = Inr (fst s')" using run by (simp add: precompute_probs_flat)
  have fr: "frame (fst s') = frame g" using inv by (simp add: precompute_inv_def)
  have dicts: "\<exists>d. has_dict (fst s') v d" if "v < g_vcount g" for v
    using inv that unfolding precompute_inv_def by blast
  have lab: "v_label (fst s') = v_label g"
  proof -
    have "v_label (fst s') = v_label (fst ?s)"
    proof (rule for_loop_invariant [OF run, where I = "\<lambda>s. v_label (fst s) = v_label (fst ?s)"])
      fix x t t' assume a: "v_label (fst t) = v_label (fst ?s)" and b: "pair_step ps x t = Inr t'"
      from b have "v_label (fst t') = v_label (fst t)"
        by (auto simp add: pair_step_def precompute_step_def Let_def
            split: sum.splits option.splits prod.splits if_splits)
      with a show "v_label (fst t') = v_label (fst ?s)" by simp
    qed simp
    then show ?thesis by (simp add: init_probabilities_frame)
  qed
  have first: "\<exists>a. stored_first_travel (fst s') v = Some a \<and> good v a"
    if v: "v < g_vcount g" and ne: "neighbors g v \<noteq> []" for v
  proof -
    from ne obtain u where u: "u \<in> set (neighbors g v)" by (cases "neighbors g v") auto
    from neighbors_valid [OF valid u] u have "visited g (u, v) s'"
      by (intro vis) (simp_all add: neighbors_sym)
    then have "v_name g v \<in> snd s'" by (simp add: visited_def)
    with inv v show ?thesis unfolding precompute_inv_def by blast
  qed
  have second: "\<exists>a. stored_probabilities (fst s') v (v_name g u) = Some a \<and> good v a"
    if u: "u < g_vcount g" and nb: "v \<in> set (neighbors g u)" for u v
  proof -
    from vis [OF u nb] obtain d a where d: "has_dict (fst s') v d" "d (v_name g u) = Some a"
      by (auto simp add: visited_def)
    from neighbors_valid [OF valid nb] inv obtain d' where d': "has_dict (fst s') v d'"
      and all: "\<forall>nm a. d' nm = Some a \<longrightarrow> good v a"
      unfolding precompute_inv_def by blast
    from has_dict_unique [OF d(1) d'] d(2) all have "good v a" by blast
    with stored_probabilities_has_dict [OF d(1), of "v_name g u"] d(2) show ?thesis by simp
  qed
  from res fr lab dicts first second show ?thesis by blast
qed

lemma positive_nonzero_parameters:
  "positive_parameters ps g \<Longrightarrow> nonzero_parameters ps g"
  by (auto simp add: positive_parameters_def nonzero_parameters_def list_all_iff)

lemma precompute_probs_distributions:
  assumes valid: "valid_edges g" and wpos: "positive_weights g"
    and ppos: "positive_parameters ps g" and names: "distinct_names g"
    and range: "magnitudes_in_range ps g"
  shows "\<exists>g'. precompute_probs ps g = Inr g' \<and> frame g' = frame g \<and> v_label g' = v_label g \<and>
           (\<forall>v < g_vcount g. \<exists>d. has_dict g' v d) \<and>
           (\<forall>v < g_vcount g. neighbors g v \<noteq> [] \<longrightarrow>
               (\<exists>a. stored_first_travel g' v = Some a \<and>
                    is_distribution (length (neighbors g v)) a)) \<and>
           (\<forall>u < g_vcount g. \<forall>v \<in> set (neighbors g u).
               \<exists>a. stored_probabilities g' v (v_name g u) = Some a \<and>
                   is_distribution (length (neighbors g v)) a)"
proof (rule precompute_probs_stores
    [where good = "\<lambda>v. is_distribution (length (neighbors g v))",
      OF valid positive_nonzero_parameters [OF ppos] names])
  fix u v assume u: "u < g_vcount g" and nb: "v \<in> set (neighbors g u)"
  let ?ws = "map (second_order_weight ps g u v) (neighbors g v)"
  from neighbors_valid [OF valid nb] have v: "v < g_vcount g" .
  from nb have sym: "u \<in> set (neighbors g v)" by (simp add: neighbors_sym)
  then have ne: "?ws \<noteq> []" by auto
  from ppos v have p: "0 < get_p ps (v_name g v)" and q: "0 < get_q ps (v_name g v)"
    by (simp_all add: positive_parameters_def list_all_iff vs_def)
  have pos: "list_all (\<lambda>w. 0 < num_value w) ?ws"
    using second_order_weight_positive [OF wpos _ p q] by (simp add: list_all_iff)
  from second_order_weights_float [OF sym] obtain x where "PyFloat x \<in> set ?ws" by blast
  from np_sum_float [OF this] have "np_sum ?ws = sum_list (map num_value ?ws)" .
  from np_normalize_distribution [OF ne pos this]
  show "is_distribution (length (neighbors g v)) (np_normalize ?ws)" by simp
next
  fix v assume v: "v < g_vcount g" and nonempty: "neighbors g v \<noteq> []"
  let ?ws = "map (edgeWeight g v) (neighbors g v)"
  from nonempty have ne: "?ws \<noteq> []" by simp
  have pos: "list_all (\<lambda>w. 0 < num_value w) ?ws"
    using edgeWeight_positive [OF wpos] by (simp add: list_all_iff)
  then have "list_all (\<lambda>w. 0 < w) (map num_value ?ws)" by (simp add: list_all_iff)
  from sum_list_positive [OF _ this] ne have low: "0 \<le> sum_list (map num_value ?ws)" by simp
  from range v
  have "sum_list (map (\<lambda>x. num_value (edgeWeight g v x)) (neighbors g v)) < 2 ^ 63"
    by (simp add: magnitudes_in_range_def list_all_iff vs_def)
  then have high: "sum_list (map num_value ?ws) < 2 ^ 63" by (simp add: comp_def)
  from np_normalize_distribution [OF ne pos np_sum_exact [OF low high]]
  show "is_distribution (length (neighbors g v)) (np_normalize ?ws)" by simp
qed

lemma is_distribution_Array:
  "is_distribution n a \<Longrightarrow> \<exists>xs. a = Array xs \<and> length xs = n \<and> sum_list xs = 1"
  by (cases a) (simp_all add: is_distribution_def)

text \<open>
  C6, as amended. On a graph whose edges join its own vertices and have positive weights,
  with positive resolved p and q and vertex names that identify the vertex, and whose
  magnitudes the machine arithmetic represents (at every vertex the weights to its
  neighbors add up to less than \<open>2^63\<close>; weights at least \<open>2^-100\<close>; p and q between
  \<open>2^-100\<close> and \<open>2^100\<close>; fewer than \<open>2^32\<close> edges), the precomputation succeeds;
  afterwards every vertex v with a non-empty neighbor list has a stored first-travel
  array, one entry per neighbor, that sums to 1, and for every u and every neighbor v of u
  the array stored at v under the name of u has one entry per neighbor of v and sums to 1
  (exactly, over the exact arithmetic that idealises the floats).
\<close>

theorem C6_distributions_sum_to_one:
  "valid_edges g \<and> positive_weights g \<and> positive_parameters ps g \<and> distinct_names g \<and>
   magnitudes_in_range ps g \<longrightarrow>
   (\<exists>g'. precompute_probs ps g = Inr g' \<and>
      (\<forall>v < g_vcount g. neighbors g v \<noteq> [] \<longrightarrow>
          (\<exists>xs. stored_first_travel g' v = Some (Array xs) \<and>
                length xs = length (neighbors g v) \<and> sum_list xs = 1)) \<and>
      (\<forall>u < g_vcount g. \<forall>v \<in> set (neighbors g u).
          \<exists>xs. stored_probabilities g' v (v_name g u) = Some (Array xs) \<and>
               length xs = length (neighbors g v) \<and> sum_list xs = 1))"
proof
  assume "valid_edges g \<and> positive_weights g \<and> positive_parameters ps g \<and> distinct_names g \<and>
    magnitudes_in_range ps g"
  then have h: "valid_edges g" "positive_weights g" "positive_parameters ps g" "distinct_names g"
    "magnitudes_in_range ps g"
    by simp_all
  from precompute_probs_distributions [OF h] obtain g' where
    run: "precompute_probs ps g = Inr g'"
    and first: "\<And>v. v < g_vcount g \<Longrightarrow> neighbors g v \<noteq> [] \<Longrightarrow>
               \<exists>a. stored_first_travel g' v = Some a \<and> is_distribution (length (neighbors g v)) a"
    and second: "\<And>u v. u < g_vcount g \<Longrightarrow> v \<in> set (neighbors g u) \<Longrightarrow>
               \<exists>a. stored_probabilities g' v (v_name g u) = Some a \<and>
                   is_distribution (length (neighbors g v)) a"
    by blast
  have a: "\<exists>xs. stored_first_travel g' v = Some (Array xs) \<and>
                length xs = length (neighbors g v) \<and> sum_list xs = 1"
    if "v < g_vcount g" and "neighbors g v \<noteq> []" for v
    using first [OF that] by (auto dest: is_distribution_Array)
  have b: "\<exists>xs. stored_probabilities g' v (v_name g u) = Some (Array xs) \<and>
               length xs = length (neighbors g v) \<and> sum_list xs = 1"
    if "u < g_vcount g" and "v \<in> set (neighbors g u)" for u v
    using second [OF that] by (auto dest: is_distribution_Array)
  from run a b
  show "\<exists>g'. precompute_probs ps g = Inr g' \<and>
      (\<forall>v < g_vcount g. neighbors g v \<noteq> [] \<longrightarrow>
          (\<exists>xs. stored_first_travel g' v = Some (Array xs) \<and>
                length xs = length (neighbors g v) \<and> sum_list xs = 1)) \<and>
      (\<forall>u < g_vcount g. \<forall>v \<in> set (neighbors g u).
          \<exists>xs. stored_probabilities g' v (v_name g u) = Some (Array xs) \<and>
               length xs = length (neighbors g v) \<and> sum_list xs = 1)"
    by blast
qed

theorem C6_distributions_sum_to_one_witness:
  "valid_edges triangle \<and> positive_weights triangle \<and> positive_parameters bias_params triangle \<and>
   distinct_names triangle \<and> magnitudes_in_range bias_params triangle \<and>
   1 < g_vcount triangle \<and> neighbors triangle 1 \<noteq> [] \<and>
   0 < g_vcount triangle \<and> 1 \<in> set (neighbors triangle 0) \<and>
   (\<exists>g'. precompute_probs bias_params triangle = Inr g' \<and>
      (\<exists>xs. stored_first_travel g' 1 = Some (Array xs) \<and>
            length xs = length (neighbors triangle 1) \<and> sum_list xs = 1) \<and>
      (\<exists>xs. stored_probabilities g' 1 (v_name triangle 0) = Some (Array xs) \<and>
            length xs = length (neighbors triangle 1) \<and> sum_list xs = 1))"
proof -
  have h: "valid_edges triangle \<and> positive_weights triangle \<and>
           positive_parameters bias_params triangle \<and> distinct_names triangle \<and>
           magnitudes_in_range bias_params triangle"
    by code_simp
  have k: "1 < g_vcount triangle" "neighbors triangle 1 \<noteq> []" "0 < g_vcount triangle"
    "1 \<in> set (neighbors triangle 0)"
    by code_simp+
  from C6_distributions_sum_to_one [of triangle bias_params] h k show ?thesis by blast
qed

text \<open>
  C6 as stated fails on integer weights whose sum leaves 64 bits. On the path A-B-C with
  the int weight \<open>2^62\<close> on both edges (positive weights, default p = q = 1) the first-travel
  weights of B are two ints, numpy holds them as int64, their sum wraps around to
  \<open>-2^63\<close>, and the array stored at B is (-1/2, -1/2): it sums to -1.
\<close>

theorem C6_int64_sum_wraps:
  "valid_edges huge_path \<and> positive_weights huge_path \<and>
   positive_parameters default_params huge_path \<and> distinct_names huge_path \<and>
   neighbors huge_path 1 = [0, 2] \<and>
   (case precompute_probs default_params huge_path of
      Inl err \<Rightarrow> None
    | Inr g' \<Rightarrow> stored_first_travel g' 1) = Some (Array [- 1 / 2, - 1 / 2]) \<and>
   sum_list [- 1 / 2, - 1 / 2 :: rat] = - 1"
  by code_simp

section \<open>Parameters that are not positive\<close>




section \<open>What construction does to the graph\<close>




section \<open>The skip rule and the number of walks\<close>

lemma walks_from_length:
  "walks_from get_walk g xs r = (ws, None, r') \<Longrightarrow> length ws = length xs"
proof (induction xs arbitrary: ws r r')
  case Nil
  then show ?case by simp
next
  case (Cons x xs)
  obtain w e r1 where w: "get_walk g x r = (w, e, r1)" by (cases "get_walk g x r") auto
  with Cons.prems have e: "e = None" by (cases e) simp_all
  obtain ws1 f1 r2 where rest: "walks_from get_walk g xs r1 = (ws1, f1, r2)"
    by (cases "walks_from get_walk g xs r1") auto
  with Cons.prems w e have "f1 = None" and "ws = w # ws1" by simp_all
  with Cons.IH [of r1 ws1 r2] rest show ?case by simp
qed

lemma get_walks_loop_length:
  "get_walks_loop get_walk g n r = (ws, None, r') \<Longrightarrow> length ws = n * length (vs g)"
proof (induction n arbitrary: ws r r')
  case 0
  then show ?case by simp
next
  case (Suc n)
  let ?r1 = "snd (random_shuffle (vs g) r)"
  obtain ws1 f1 r2 where first: "walks_from get_walk g (vs g) ?r1 = (ws1, f1, r2)"
    by (cases "walks_from get_walk g (vs g) ?r1") auto
  with Suc.prems have f1: "f1 = None" by (cases f1) (simp_all add: Let_def)
  obtain ws2 f2 r3 where rest: "get_walks_loop get_walk g n r2 = (ws2, f2, r3)"
    by (cases "get_walks_loop get_walk g n r2") auto
  with Suc.prems first f1 have "f2 = None" and "ws = ws1 @ ws2" by (simp_all add: Let_def)
  with Suc.IH [of r2 ws2 r3] rest walks_from_length [of get_walk g "vs g" ?r1 ws1 r2] first f1
  show ?case by simp
qed

lemma biased_walk_empty_iff:
  assumes "2 \<le> max_path_length ps"
  shows "fst (BiasedRandomWalker_get_igraph_walk ps g vertex r) = [] \<longleftrightarrow> check ps vertex"
proof (cases "check ps vertex")
  case True
  with assms show ?thesis by (simp add: BiasedRandomWalker_get_igraph_walk_def)
next
  case False
  show ?thesis
  proof (cases "\<exists>ft c. v_first_travel_key g = Some ft \<and>
                  np_random_choice (neighbors g vertex) (ft vertex) r = Inr c")
    case no: False
    with assms False show ?thesis
      by (auto simp add: BiasedRandomWalker_get_igraph_walk_def split: option.splits sum.splits)
  next
    case True
    then obtain ft d where s: "v_first_travel_key g = Some ft"
      "np_random_choice (neighbors g vertex) (ft vertex) r = Inr d" by blast
    from biased_loop_length [of g "walk_length_of ps vertex" vertex "fst d" 2 "snd d" "[vertex, fst d]"]
    obtain ys where "fst (biased_loop g (walk_length_of ps vertex) vertex (fst d) 2 (snd d)
                       [vertex, fst d]) = [vertex, fst d] @ ys" by blast
    with assms False s show ?thesis
      by (simp add: BiasedRandomWalker_get_igraph_walk_def)
  qed
qed

text \<open>
  C5, as amended. With \<open>max_path_length \<ge> 2\<close> the second-order walker emits no vertex for
  a start vertex exactly when the vertex's sampling-strategy entry holds a \<open>num_walks\<close>
  value at most the global \<open>number_paths\<close> (the repetition is no input of the test, so a
  vertex is skipped in every repetition or in none). The orchestrator yields a walk for
  every vertex in every repetition all the same: when no walk raises, the walks are
  \<open>number_paths\<close> times the vertex count, those of skipped vertices being empty.
\<close>

theorem C5_skip_rule_and_walk_count:
  "(2 \<le> max_path_length ps \<longrightarrow>
      (fst (BiasedRandomWalker_get_igraph_walk ps g vertex r) = [] \<longleftrightarrow>
         (\<exists>st n. sampling_strategy ps (VertexKey vertex) = Some st \<and>
                 st_num_walks st = Some n \<and> n \<le> number_paths ps))) \<and>
   (fst (snd (get_walks ps (BiasedRandomWalker_get_igraph_walk ps) g r)) = None \<longrightarrow>
      length (fst (get_walks ps (BiasedRandomWalker_get_igraph_walk ps) g r))
        = nat (number_paths ps) * g_vcount g)"
proof (intro conjI impI)
  assume "2 \<le> max_path_length ps"
  from biased_walk_empty_iff [OF this]
  show "fst (BiasedRandomWalker_get_igraph_walk ps g vertex r) = [] \<longleftrightarrow>
         (\<exists>st n. sampling_strategy ps (VertexKey vertex) = Some st \<and>
                 st_num_walks st = Some n \<and> n \<le> number_paths ps)"
    by (auto simp add: check_def split: option.splits)
next
  let ?run = "get_walks ps (BiasedRandomWalker_get_igraph_walk ps) g r"
  assume "fst (snd ?run) = None"
  then have "get_walks_loop (BiasedRandomWalker_get_igraph_walk ps) g (nat (number_paths ps)) r
             = (fst ?run, None, snd (snd ?run))"
    by (simp add: get_walks_def prod_eq_iff)
  from get_walks_loop_length [OF this] show "length (fst ?run) = nat (number_paths ps) * g_vcount g"
    by (simp add: vs_def)
qed

theorem C5_skip_rule_and_walk_count_witness:
  "2 \<le> max_path_length skip_params \<and>
   fst (BiasedRandomWalker_get_igraph_walk skip_params triangle 0 rng0) = [] \<and>
   (\<exists>st n. sampling_strategy skip_params (VertexKey 0) = Some st \<and>
           st_num_walks st = Some n \<and> n \<le> number_paths skip_params) \<and>
   fst (snd (get_walks skip_params (BiasedRandomWalker_get_igraph_walk skip_params) lonely rng0))
     = None \<and>
   length (fst (get_walks skip_params (BiasedRandomWalker_get_igraph_walk skip_params) lonely rng0))
     = nat (number_paths skip_params) * g_vcount lonely"
proof -
  have h: "2 \<le> max_path_length skip_params"
    "fst (BiasedRandomWalker_get_igraph_walk skip_params triangle 0 rng0) = []"
    "fst (snd (get_walks skip_params (BiasedRandomWalker_get_igraph_walk skip_params) lonely rng0))
       = None"
    by code_simp+
  from C5_skip_rule_and_walk_count [of skip_params triangle 0 rng0]
    C5_skip_rule_and_walk_count [of skip_params lonely 0 rng0] h
  show ?thesis by blast
qed

text \<open>
  C5 as stated fails: in the triangle with one repetition and vertex A skipped, the claim
  counts 1 * 3 - 1 = 2 walks, and the orchestrator yields 3, the first of them empty.
\<close>

theorem C5_skipped_vertex_still_yields:
  "claimed_walk_count skip_params triangle = 2 \<and>
   (case Node2VecModel_init triangle skip_params of
      Inl err \<Rightarrow> []
    | Inr g \<Rightarrow> fst (get_walks skip_params (BiasedRandomWalker_get_igraph_walk skip_params) g rng0))
     = [[], [1, 2], [2, 1]]"
  by code_simp

section \<open>Determinism\<close>

lemma same_outcomeI:
  "a = a' \<Longrightarrow> b = b' \<Longrightarrow> R r r' \<Longrightarrow> same_outcome R (a, b, r) (a', b', r')"
  by (simp add: same_outcome_def)

lemma random_random_python:
  assumes "same_python_state r1 r2"
  shows "fst (random_random r1) = fst (random_random r2)"
    and "same_python_state (snd (random_random r1)) (snd (random_random r2))"
  using assms by (simp_all add: same_python_state_def random_random_def)

lemma random_random_numpy:
  assumes "same_numpy_state r1 r2"
  shows "same_numpy_state (snd (random_random r1)) (snd (random_random r2))"
  using assms by (simp add: same_numpy_state_def random_random_def)

lemma random_choice_python:
  assumes "same_python_state r1 r2"
  shows "(\<exists>e. random_choice xs r1 = Inl e \<and> random_choice xs r2 = Inl e) \<or>
         (\<exists>c1 c2. random_choice xs r1 = Inr c1 \<and> random_choice xs r2 = Inr c2 \<and>
                   fst c1 = fst c2 \<and> same_python_state (snd c1) (snd c2))"
  using random_random_python [OF assms]
  by (simp add: random_choice_def randbelow_def)

lemma np_random_choice_numpy:
  assumes "same_numpy_state r1 r2"
  shows "(\<exists>e. np_random_choice xs p r1 = Inl e \<and> np_random_choice xs p r2 = Inl e) \<or>
         (\<exists>c1 c2. np_random_choice xs p r1 = Inr c1 \<and> np_random_choice xs p r2 = Inr c2 \<and>
                   fst c1 = fst c2 \<and> same_numpy_state (snd c1) (snd c2))"
proof -
  from assms have s: "fst (np_random_sample r1) = fst (np_random_sample r2)"
    and t: "same_numpy_state (snd (np_random_sample r1)) (snd (np_random_sample r2))"
    by (simp_all add: same_numpy_state_def np_random_sample_def)
  show ?thesis
  proof (cases p)
    case None
    with s t show ?thesis by (simp add: np_random_choice_def)
  next
    case (Some a)
    with s t show ?thesis by (cases a) (simp_all add: np_random_choice_def)
  qed
qed

lemma shuffle_loop_python:
  "same_python_state r1 r2 \<Longrightarrow>
   same_python_state (snd (shuffle_loop n xs r1)) (snd (shuffle_loop n ys r2))"
proof (induction n arbitrary: xs ys r1 r2)
  case 0
  then show ?case by simp
next
  case (Suc n)
  from random_random_python [OF Suc.prems]
  have "same_python_state (snd (randbelow (Suc n + 1) r1)) (snd (randbelow (Suc n + 1) r2))"
    by (simp add: randbelow_def)
  from Suc.IH [OF this] show ?case by (simp add: Let_def)
qed

lemma shuffle_loop_numpy:
  "same_numpy_state r1 r2 \<Longrightarrow>
   same_numpy_state (snd (shuffle_loop n xs r1)) (snd (shuffle_loop n ys r2))"
proof (induction n arbitrary: xs ys r1 r2)
  case 0
  then show ?case by simp
next
  case (Suc n)
  from random_random_numpy [OF Suc.prems]
  have "same_numpy_state (snd (randbelow (Suc n + 1) r1)) (snd (randbelow (Suc n + 1) r2))"
    by (simp add: randbelow_def)
  from Suc.IH [OF this] show ?case by (simp add: Let_def)
qed

lemma standard_loop_python:
  "same_python_state r r2 \<Longrightarrow>
   same_outcome same_python_state (standard_loop ps g t pl r out) (standard_loop ps g t pl r2 out)"
proof (induction ps g t pl r out arbitrary: r2 rule: standard_loop.induct)
  case (1 ps g tail path_length r out)
  note unroll = standard_loop.simps [of ps g tail path_length _ out]
  show ?case
  proof (cases "path_length < max_path_length ps \<and> neighborhood_size g tail \<noteq> 0")
    case False
    with "1.prems" show ?thesis by (auto simp add: unroll same_outcome_def)
  next
    case True
    from random_choice_python [OF "1.prems", of "neighbors g tail"]
    show ?thesis
    proof (elim disjE exE conjE)
      fix e assume "random_choice (neighbors g tail) r = Inl e"
        and "random_choice (neighbors g tail) r2 = Inl e"
      with True "1.prems" show ?thesis by (simp add: unroll same_outcome_def)
    next
      fix c1 c2 assume c1: "random_choice (neighbors g tail) r = Inr c1"
        and c2: "random_choice (neighbors g tail) r2 = Inr c2"
        and eq: "fst c1 = fst c2" and st: "same_python_state (snd c1) (snd c2)"
      from "1.IH" [OF True c1 st] True c1 c2 eq show ?thesis by (simp add: unroll)
    qed
  qed
qed

lemma restarting_loop_python:
  "same_python_state r r2 \<Longrightarrow>
   same_outcome same_python_state (restarting_loop ps g v t pl r out)
     (restarting_loop ps g v t pl r2 out)"
proof (induction ps g v t pl r out arbitrary: r2 rule: restarting_loop.induct)
  case (1 ps g vertex tail path_length r out)
  note unroll = restarting_loop.simps [of ps g vertex tail path_length _ out]
  note draw = random_random_python [OF "1.prems"]
  show ?case
  proof (cases "path_length < max_path_length ps \<and> neighborhood_size g tail \<noteq> 0")
    case False
    with "1.prems" show ?thesis by (auto simp add: unroll same_outcome_def)
  next
    case True
    show ?thesis
    proof (cases "restart_probability ps \<le> fst (random_random r)")
      case restart: True
      from "1.IH"(1) [OF True restart draw(2)] True restart draw(1) show ?thesis
        by (simp add: unroll)
    next
      case onward: False
      from random_choice_python [OF draw(2), of "neighbors g tail"]
      show ?thesis
      proof (elim disjE exE conjE)
        fix e assume "random_choice (neighbors g tail) (snd (random_random r)) = Inl e"
          and "random_choice (neighbors g tail) (snd (random_random r2)) = Inl e"
        with True onward draw show ?thesis by (simp add: unroll same_outcome_def)
      next
        fix c1 c2 assume c1: "random_choice (neighbors g tail) (snd (random_random r)) = Inr c1"
          and c2: "random_choice (neighbors g tail) (snd (random_random r2)) = Inr c2"
          and eq: "fst c1 = fst c2" and st: "same_python_state (snd c1) (snd c2)"
        from "1.IH"(2) [OF True onward c1 st] True onward c1 c2 eq draw(1) show ?thesis
          by (simp add: unroll)
      qed
    qed
  qed
qed

lemma biased_loop_numpy:
  "same_numpy_state r r2 \<Longrightarrow>
   same_outcome same_numpy_state (biased_loop g wl dt t pl r out) (biased_loop g wl dt t pl r2 out)"
proof (induction g wl dt t pl r out arbitrary: r2 rule: biased_loop.induct)
  case (1 g walk_length double_tail tail path_length r out)
  note unroll = biased_loop.simps [of g walk_length double_tail tail path_length _ out]
  show ?case
  proof (cases "path_length < walk_length \<and> neighbors g tail \<noteq> []")
    case False
    with "1.prems" show ?thesis by (auto simp add: unroll same_outcome_def)
  next
    case True
    then have a: "path_length < walk_length" and b: "neighbors g tail \<noteq> []" by auto
    show ?thesis
    proof (cases "\<exists>pm d probs. v_probabilities g = Some pm \<and> pm tail = Some d \<and>
                    d (v_name g double_tail) = Some probs")
      case False
      with True "1.prems" show ?thesis
        by (auto simp add: unroll same_outcome_def split: option.splits)
    next
      case found: True
      then obtain pm d probs where s: "v_probabilities g = Some pm" "pm tail = Some d"
        "d (v_name g double_tail) = Some probs" by blast
      from np_random_choice_numpy [OF "1.prems", of "neighbors g tail" "Some probs"]
      show ?thesis
      proof (elim disjE exE conjE)
        fix e assume "np_random_choice (neighbors g tail) (Some probs) r = Inl e"
          and "np_random_choice (neighbors g tail) (Some probs) r2 = Inl e"
        with True s "1.prems" show ?thesis by (simp add: unroll same_outcome_def)
      next
        fix c1 c2 assume c1: "np_random_choice (neighbors g tail) (Some probs) r = Inr c1"
          and c2: "np_random_choice (neighbors g tail) (Some probs) r2 = Inr c2"
          and eq: "fst c1 = fst c2" and st: "same_numpy_state (snd c1) (snd c2)"
        from "1.IH" [OF a b s c1 st] True s c1 c2 eq show ?thesis by (simp add: unroll)
      qed
    qed
  qed
qed

lemma standard_reads_only:
  "reads_only same_python_state (StandardRandomWalker_get_igraph_walk ps)"
  by (simp add: reads_only_def StandardRandomWalker_get_igraph_walk_def standard_loop_python)

lemma restarting_reads_only:
  "reads_only same_python_state (RestartingRandomWalker_get_igraph_walk ps)"
  by (simp add: reads_only_def RestartingRandomWalker_get_igraph_walk_def restarting_loop_python)

lemma biased_reads_only:
  "reads_only same_numpy_state (BiasedRandomWalker_get_igraph_walk ps)"
  unfolding reads_only_def
proof (intro allI impI)
  fix g v r1 r2 assume same: "same_numpy_state r1 r2"
  note unroll = BiasedRandomWalker_get_igraph_walk_def
  show "same_outcome same_numpy_state (BiasedRandomWalker_get_igraph_walk ps g v r1)
          (BiasedRandomWalker_get_igraph_walk ps g v r2)"
  proof (cases "max_path_length ps < 2 \<or> check ps v \<or> v_first_travel_key g = None")
    case True
    with same show ?thesis by (auto simp add: unroll same_outcome_def)
  next
    case False
    then obtain ft where ft: "v_first_travel_key g = Some ft" by auto
    from np_random_choice_numpy [OF same, of "neighbors g v" "ft v"]
    show ?thesis
    proof (elim disjE exE conjE)
      fix e assume "np_random_choice (neighbors g v) (ft v) r1 = Inl e"
        and "np_random_choice (neighbors g v) (ft v) r2 = Inl e"
      with False ft same show ?thesis by (simp add: unroll same_outcome_def)
    next
      fix c1 c2 assume c1: "np_random_choice (neighbors g v) (ft v) r1 = Inr c1"
        and c2: "np_random_choice (neighbors g v) (ft v) r2 = Inr c2"
        and eq: "fst c1 = fst c2" and st: "same_numpy_state (snd c1) (snd c2)"
      from biased_loop_numpy [OF st, of g "walk_length_of ps v" v "fst c1" 2 "[v, fst c1]"]
        False ft c1 c2 eq
      show ?thesis by (simp add: unroll)
    qed
  qed
qed

lemma walks_from_reads_only:
  assumes gw: "reads_only R get_walk"
  shows "R r1 r2 \<Longrightarrow>
         same_outcome R (walks_from get_walk g xs r1) (walks_from get_walk g xs r2)"
proof (induction xs arbitrary: r1 r2)
  case Nil
  then show ?case by (simp add: same_outcome_def)
next
  case (Cons x xs)
  obtain w1 e1 s1 where a: "get_walk g x r1 = (w1, e1, s1)" by (cases "get_walk g x r1") auto
  obtain w2 e2 s2 where b: "get_walk g x r2 = (w2, e2, s2)" by (cases "get_walk g x r2") auto
  from gw Cons.prems have "same_outcome R (get_walk g x r1) (get_walk g x r2)"
    unfolding reads_only_def by blast
  with a b have eq: "w1 = w2" "e1 = e2" and s: "R s1 s2" by (simp_all add: same_outcome_def)
  show ?case
  proof (cases e1)
    case (Some err)
    with eq have "e2 = Some err" by simp
    with Some a b eq(1) s show ?thesis by (simp add: same_outcome_def)
  next
    case None
    with eq have none: "e2 = None" by simp
    obtain ws1 f1 t1 where c: "walks_from get_walk g xs s1 = (ws1, f1, t1)"
      by (cases "walks_from get_walk g xs s1") auto
    obtain ws2 f2 t2 where d: "walks_from get_walk g xs s2 = (ws2, f2, t2)"
      by (cases "walks_from get_walk g xs s2") auto
    from Cons.IH [OF s] c d have "ws1 = ws2" "f1 = f2" "R t1 t2"
      by (simp_all add: same_outcome_def)
    with None none a b eq(1) c d show ?thesis by (simp add: same_outcome_def)
  qed
qed

lemma get_walks_loop_reads_only:
  assumes gw: "reads_only R get_walk"
    and sh: "\<And>(xs::nat list) r1 r2. R r1 r2 \<Longrightarrow> R (snd (random_shuffle xs r1)) (snd (random_shuffle xs r2))"
  shows "R r1 r2 \<Longrightarrow>
         same_outcome R (get_walks_loop get_walk g n r1) (get_walks_loop get_walk g n r2)"
proof (induction n arbitrary: r1 r2)
  case 0
  then show ?case by (simp add: same_outcome_def)
next
  case (Suc n)
  let ?s1 = "snd (random_shuffle (vs g) r1)" and ?s2 = "snd (random_shuffle (vs g) r2)"
  from sh [OF Suc.prems] have s: "R ?s1 ?s2" .
  obtain ws1 f1 t1 where a: "walks_from get_walk g (vs g) ?s1 = (ws1, f1, t1)"
    by (cases "walks_from get_walk g (vs g) ?s1") auto
  obtain ws2 f2 t2 where b: "walks_from get_walk g (vs g) ?s2 = (ws2, f2, t2)"
    by (cases "walks_from get_walk g (vs g) ?s2") auto
  from walks_from_reads_only [OF gw s, of g "vs g"] a b
  have eq: "ws1 = ws2" "f1 = f2" and t: "R t1 t2" by (simp_all add: same_outcome_def)
  show ?case
  proof (cases f1)
    case (Some failure)
    with eq have "f2 = Some failure" by simp
    with Some a b eq(1) t show ?thesis by (simp add: same_outcome_def Let_def)
  next
    case None
    obtain ws3 f3 t3 where c: "get_walks_loop get_walk g n t1 = (ws3, f3, t3)"
      by (cases "get_walks_loop get_walk g n t1") auto
    obtain ws4 f4 t4 where d: "get_walks_loop get_walk g n t2 = (ws4, f4, t4)"
      by (cases "get_walks_loop get_walk g n t2") auto
    from Suc.IH [OF t] c d have "ws3 = ws4" "f3 = f4" "R t3 t4"
      by (simp_all add: same_outcome_def)
    moreover from None eq have "f2 = None" by simp
    ultimately show ?thesis using None a b eq(1) c d by (simp add: same_outcome_def Let_def)
  qed
qed

lemma get_walks_python:
  assumes "reads_only same_python_state get_walk" and "same_python_state r1 r2"
  shows "fst (get_walks ps get_walk g r1) = fst (get_walks ps get_walk g r2) \<and>
         fst (snd (get_walks ps get_walk g r1)) = fst (snd (get_walks ps get_walk g r2))"
proof -
  have "same_outcome same_python_state (get_walks_loop get_walk g (nat (number_paths ps)) r1)
          (get_walks_loop get_walk g (nat (number_paths ps)) r2)"
    by (rule get_walks_loop_reads_only [OF assms(1) _ assms(2)])
      (simp add: random_shuffle_def shuffle_loop_python)
  then show ?thesis by (simp add: get_walks_def same_outcome_def)
qed

lemma get_walks_numpy:
  assumes "reads_only same_numpy_state get_walk" and "same_numpy_state r1 r2"
  shows "fst (get_walks ps get_walk g r1) = fst (get_walks ps get_walk g r2) \<and>
         fst (snd (get_walks ps get_walk g r1)) = fst (snd (get_walks ps get_walk g r2))"
proof -
  have "same_outcome same_numpy_state (get_walks_loop get_walk g (nat (number_paths ps)) r1)
          (get_walks_loop get_walk g (nat (number_paths ps)) r2)"
    by (rule get_walks_loop_reads_only [OF assms(1) _ assms(2)])
      (simp add: random_shuffle_def shuffle_loop_numpy)
  then show ?thesis by (simp add: get_walks_def same_outcome_def)
qed

text \<open>
  C9. The random source is the state of the two generators the code draws from. Two runs
  of the orchestrator on the same graph and parameters from the same random state give
  the same corpus, whatever the walker. More is true: the corpus of the second-order
  walker (walks in yield order, and the exception that ended the run if one did) is the
  same for two states with the same numpy generator, and the corpora of the uniform and
  the restarting walker are the same for two states with the same Python generator.
\<close>

theorem C9_same_random_source_same_walks:
  "(r1 = r2 \<longrightarrow> get_walks ps get_walk g r1 = get_walks ps get_walk g r2) \<and>
   (same_numpy_state r1 r2 \<longrightarrow>
      fst (get_walks ps (BiasedRandomWalker_get_igraph_walk ps) g r1) =
        fst (get_walks ps (BiasedRandomWalker_get_igraph_walk ps) g r2) \<and>
      fst (snd (get_walks ps (BiasedRandomWalker_get_igraph_walk ps) g r1)) =
        fst (snd (get_walks ps (BiasedRandomWalker_get_igraph_walk ps) g r2))) \<and>
   (same_python_state r1 r2 \<longrightarrow>
      fst (get_walks ps (StandardRandomWalker_get_igraph_walk ps) g r1) =
        fst (get_walks ps (StandardRandomWalker_get_igraph_walk ps) g r2) \<and>
      fst (snd (get_walks ps (StandardRandomWalker_get_igraph_walk ps) g r1)) =
        fst (snd (get_walks ps (StandardRandomWalker_get_igraph_walk ps) g r2)) \<and>
      fst (get_walks ps (RestartingRandomWalker_get_igraph_walk ps) g r1) =
        fst (get_walks ps (RestartingRandomWalker_get_igraph_walk ps) g r2) \<and>
      fst (snd (get_walks ps (RestartingRandomWalker_get_igraph_walk ps) g r1)) =
        fst (snd (get_walks ps (RestartingRandomWalker_get_igraph_walk ps) g r2)))"
  using get_walks_numpy [OF biased_reads_only, of r1 r2 ps ps g]
    get_walks_python [OF standard_reads_only, of r1 r2 ps ps g]
    get_walks_python [OF restarting_reads_only, of r1 r2 ps ps g]
  by simp

theorem C9_same_random_source_same_walks_witness:
  "rng0 = rng0 \<and>
   get_walks three_step_params (StandardRandomWalker_get_igraph_walk three_step_params) triangle rng0 =
     get_walks three_step_params (StandardRandomWalker_get_igraph_walk three_step_params) triangle rng0 \<and>
   same_numpy_state rng0 rng1 \<and>
   fst (get_walks three_step_params (BiasedRandomWalker_get_igraph_walk three_step_params)
          prepared_triangle rng1) =
     fst (get_walks three_step_params (BiasedRandomWalker_get_igraph_walk three_step_params)
            prepared_triangle rng0) \<and>
   fst (get_walks three_step_params (BiasedRandomWalker_get_igraph_walk three_step_params)
          prepared_triangle rng0) =
     [[0, 2, 1], [1, 2, 1], [2, 1, 2], [0, 2, 1], [1, 2, 1], [2, 1, 2]] \<and>
   same_python_state rng0 rng2 \<and>
   fst (get_walks three_step_params (StandardRandomWalker_get_igraph_walk three_step_params)
          triangle rng2) =
     fst (get_walks three_step_params (StandardRandomWalker_get_igraph_walk three_step_params)
            triangle rng0)"
proof -
  have n: "same_numpy_state rng0 rng1" and p: "same_python_state rng0 rng2"
    by (simp_all add: same_numpy_state_def same_python_state_def rng0_def rng1_def rng2_def)
  have v: "fst (get_walks three_step_params (BiasedRandomWalker_get_igraph_walk three_step_params)
                  prepared_triangle rng0) =
             [[0, 2, 1], [1, 2, 1], [2, 1, 2], [0, 2, 1], [1, 2, 1], [2, 1, 2]]"
    by code_simp
  from C9_same_random_source_same_walks
         [of rng0 rng0 three_step_params "StandardRandomWalker_get_igraph_walk three_step_params"
            triangle]
    C9_same_random_source_same_walks [of rng0 rng1 three_step_params _ prepared_triangle]
    C9_same_random_source_same_walks [of rng0 rng2 three_step_params _ triangle]
    n p v
  show ?thesis by simp
qed

end
